theory Spec2Isabelle
  imports Main "HOL-Library.AList" "HOL-Library.Sublist"
begin

section \<open>JavaScript values\<close>

text \<open>
  The generator (\<^verbatim>\<open>src/pi-agent/generate-schemas.ts\<close>) works on plain JavaScript object trees.
  A property key is a string or a symbol; the schema builder tags its objects with
  symbol-keyed properties. An object is the list of its own properties in property order,
  which is the order \<^verbatim>\<open>Object.keys\<close>, \<^verbatim>\<open>Object.values\<close> and \<^verbatim>\<open>JSON.stringify\<close> follow.
  Numbers are the integers: the definitions of this file carry integer literals only.
\<close>

datatype key = Str string | Sym string

datatype jsval =
    JUndefined
  | JNull
  | JBool bool
  | JNum int
  | JStr string
  | JArr "jsval list"
  | JObj "(key \<times> jsval) list"

type_synonym props = "(key \<times> jsval) list"

text \<open>\<^verbatim>\<open>s.startsWith(p)\<close>\<close>

definition startsWith :: "string \<Rightarrow> string \<Rightarrow> bool" where
  "startsWith s p = (take (length p) s = p)"

text \<open>\<^verbatim>\<open>typeof v === "object" && v !== null\<close>: objects and arrays.\<close>

fun is_object :: "jsval \<Rightarrow> bool" where
  "is_object (JObj _) = True"
| "is_object (JArr _) = True"
| "is_object _ = False"

text \<open>
  \<^verbatim>\<open>Object.keys\<close>, \<^verbatim>\<open>Object.values\<close> and \<^verbatim>\<open>JSON.stringify\<close> visit the string-keyed
  properties only.
\<close>

fun enumerable :: "key \<Rightarrow> bool" where
  "enumerable (Str _) = True"
| "enumerable (Sym _) = False"

text \<open>The truth value of a JavaScript value, as \<^verbatim>\<open>!v\<close> tests it.\<close>

fun truthy :: "jsval \<Rightarrow> bool" where
  "truthy JUndefined = False"
| "truthy JNull = False"
| "truthy (JBool b) = b"
| "truthy (JNum n) = (n \<noteq> 0)"
| "truthy (JStr s) = (s \<noteq> [])"
| "truthy (JArr _) = True"
| "truthy (JObj _) = True"

text \<open>\<^verbatim>\<open>obj.k\<close> reads \<^verbatim>\<open>undefined\<close> for a missing property.\<close>

definition get_prop :: "props \<Rightarrow> string \<Rightarrow> jsval" where
  "get_prop ps k = (case map_of ps (Str k) of None \<Rightarrow> JUndefined | Some v \<Rightarrow> v)"

text \<open>
  \<^verbatim>\<open>obj.k = v\<close> replaces the value of an existing property where it stands and appends a
  new property after the existing ones.
\<close>

definition set_prop :: "props \<Rightarrow> string \<Rightarrow> jsval \<Rightarrow> props" where
  "set_prop ps k v = AList.update (Str k) v ps"

fun the_props :: "jsval \<Rightarrow> props" where
  "the_props (JObj ps) = ps"
| "the_props _ = []"

section \<open>The normalizer\<close>

text \<open>
  \<^verbatim>\<open>JSON.parse(JSON.stringify(v))\<close> (line 365): the serializer skips symbol-keyed
  properties and properties whose value is \<^verbatim>\<open>undefined\<close>, and writes \<^verbatim>\<open>null\<close> for an
  \<^verbatim>\<open>undefined\<close> array element; the parser rebuilds the tree from the text.
\<close>

fun json_clone :: "jsval \<Rightarrow> jsval" where
  "json_clone (JObj kvs) =
     JObj (map (\<lambda>(k, v). (k, json_clone v))
            (filter (\<lambda>(k, v). enumerable k \<and> v \<noteq> JUndefined) kvs))"
| "json_clone (JArr vs) =
     JArr (map (\<lambda>v. if v = JUndefined then JNull else json_clone v) vs)"
| "json_clone v = v"

text \<open>The key test of line 380: \<^verbatim>\<open>key.startsWith("[Symbol")\<close>, on the keys of \<^verbatim>\<open>Object.keys\<close>.\<close>

fun is_marker :: "key \<Rightarrow> bool" where
  "is_marker (Str s) = startsWith s ''[Symbol''"
| "is_marker (Sym _) = False"

text \<open>
  \<^verbatim>\<open>cleanSchema\<close> (lines 375 to 397), with the deletions in place written as the tree that
  results. The first loop deletes the marked keys of the object; the second visits the
  remaining values: the object-typed items of an array value, or an object value itself.
  Called on an array (an item that is an array), the keys are the indices, none of which is
  marked, and the values are the elements.
\<close>

fun cleanSchema :: "jsval \<Rightarrow> jsval" where
  "cleanSchema (JObj kvs) =
     JObj (map (\<lambda>(k, v). (k,
              if enumerable k then
                (case v of
                   JArr items \<Rightarrow> JArr (map (\<lambda>i. if is_object i then cleanSchema i else i) items)
                 | JObj ps \<Rightarrow> cleanSchema v
                 | _ \<Rightarrow> v)
              else v))
            (filter (\<lambda>(k, v). \<not> is_marker k) kvs))"
| "cleanSchema (JArr vs) =
     JArr (map (\<lambda>v.
              (case v of
                 JArr items \<Rightarrow> JArr (map (\<lambda>i. if is_object i then cleanSchema i else i) items)
               | JObj ps \<Rightarrow> cleanSchema v
               | _ \<Rightarrow> v)) vs)"
| "cleanSchema v = v"

definition draft07 :: string where
  "draft07 = ''http://json-schema.org/draft-07/schema#''"

text \<open>Lines 368 to 372: the dialect URI, and the fallback title and description.\<close>

definition add_meta :: "props \<Rightarrow> string \<Rightarrow> string \<Rightarrow> props" where
  "add_meta jsonSchema title description =
     (let s1 = set_prop jsonSchema ''$schema'' (JStr draft07);
          s2 = (if \<not> truthy (get_prop s1 ''title'') then set_prop s1 ''title'' (JStr title) else s1);
          s3 = (if \<not> truthy (get_prop s2 ''description'')
                then set_prop s2 ''description'' (JStr description) else s2)
      in s3)"

text \<open>
  \<^verbatim>\<open>toJsonSchema\<close> (lines 363 to 401). The parameter has the object type \<^verbatim>\<open>TSchema\<close>, so
  the argument is the property list of an object.
\<close>

definition toJsonSchema :: "props \<Rightarrow> string \<Rightarrow> string \<Rightarrow> jsval" where
  "toJsonSchema schema title description =
     cleanSchema (JObj (add_meta (the_props (json_clone (JObj schema))) title description))"

section \<open>Paths and the stripping as the specification words it\<close>

datatype step = Key string | Index nat

fun at_path :: "jsval \<Rightarrow> step list \<Rightarrow> jsval option" where
  "at_path v [] = Some v"
| "at_path (JObj kvs) (Key k # p) =
     (case map_of kvs (Str k) of None \<Rightarrow> None | Some v \<Rightarrow> at_path v p)"
| "at_path (JArr vs) (Index i # p) = (if i < length vs then at_path (vs ! i) p else None)"
| "at_path _ _ = None"

text \<open>A tree as the parser builds it: string keys only, and no \<^verbatim>\<open>undefined\<close> inside.\<close>

fun is_json :: "jsval \<Rightarrow> bool" where
  "is_json (JObj kvs) = list_all (\<lambda>(k, v). enumerable k \<and> is_json v) kvs"
| "is_json (JArr vs) = list_all is_json vs"
| "is_json JUndefined = False"
| "is_json _ = True"

text \<open>No object of the tree, at any depth, has a marked key.\<close>

fun marker_free :: "jsval \<Rightarrow> bool" where
  "marker_free (JObj kvs) = list_all (\<lambda>(k, v). \<not> is_marker k \<and> marker_free v) kvs"
| "marker_free (JArr vs) = list_all marker_free vs"
| "marker_free _ = True"

text \<open>
  The stripping in the words of the specification: from every object of the tree, at every
  depth, the properties whose key begins with \<^verbatim>\<open>[Symbol\<close> are removed, and nothing else
  changes.
\<close>

fun strip_prefixed :: "jsval \<Rightarrow> jsval" where
  "strip_prefixed (JObj kvs) =
     JObj (map (\<lambda>(k, v). (k, strip_prefixed v)) (filter (\<lambda>(k, v). \<not> is_marker k) kvs))"
| "strip_prefixed (JArr vs) = JArr (map strip_prefixed vs)"
| "strip_prefixed v = v"

text \<open>The value of a root property of a document.\<close>

definition root_get :: "jsval \<Rightarrow> string \<Rightarrow> jsval" where
  "root_get v k = get_prop (the_props v) k"

section \<open>Serialization\<close>

text \<open>
  \<^verbatim>\<open>JSON.stringify(value, null, gap)\<close>: the text of a value. Strings are byte sequences
  (UTF-8), so the characters above the control range pass unchanged.
\<close>

abbreviation nl :: char where
  "nl \<equiv> CHR 0x0A"

abbreviation tab :: char where
  "tab \<equiv> CHR 0x09"

abbreviation dquote :: char where
  "dquote \<equiv> CHR 0x22"

abbreviation backslash :: char where
  "backslash \<equiv> CHR 0x5C"

text \<open>\<^verbatim>\<open>QuoteJSONString\<close>: the escapes of the control characters, the quote and the backslash.\<close>

definition hex_digit :: "nat \<Rightarrow> char" where
  "hex_digit n = ''0123456789abcdef'' ! (n mod 16)"

definition escape_char :: "char \<Rightarrow> string" where
  "escape_char c =
     (if c = CHR 0x08 then [backslash, CHR ''b'']
      else if c = CHR 0x09 then [backslash, CHR ''t'']
      else if c = CHR 0x0A then [backslash, CHR ''n'']
      else if c = CHR 0x0C then [backslash, CHR ''f'']
      else if c = CHR 0x0D then [backslash, CHR ''r'']
      else if c = dquote then [backslash, dquote]
      else if c = backslash then [backslash, backslash]
      else if (of_char c :: nat) < 32
        then [backslash, CHR ''u'', CHR ''0'', CHR ''0'',
              hex_digit (of_char c div 16), hex_digit (of_char c mod 16)]
      else [c])"

definition quote :: "string \<Rightarrow> string" where
  "quote s = dquote # concat (map escape_char s) @ [dquote]"

text \<open>The decimal text of an integer.\<close>

fun digits :: "nat \<Rightarrow> string" where
  "digits n = (if n < 10 then [''0123456789'' ! n] else digits (n div 10) @ [''0123456789'' ! (n mod 10)])"

declare digits.simps [simp del]

definition number_string :: "int \<Rightarrow> string" where
  "number_string i = (if i < 0 then CHR ''-'' # digits (nat (- i)) else digits (nat i))"

fun join :: "string \<Rightarrow> string list \<Rightarrow> string" where
  "join sep [] = []"
| "join sep [x] = x"
| "join sep (x # y # ys) = x @ sep @ join sep (y # ys)"

text \<open>
  \<^verbatim>\<open>SerializeJSONProperty\<close>, with the current indentation: \<^verbatim>\<open>undefined\<close> has no text; an
  object writes its string-keyed properties that have a text; an array writes \<^verbatim>\<open>null\<close> for
  an element without one.
\<close>

fun serialize :: "string \<Rightarrow> string \<Rightarrow> jsval \<Rightarrow> string option" where
  "serialize gap indent JUndefined = None"
| "serialize gap indent JNull = Some ''null''"
| "serialize gap indent (JBool b) = Some (if b then ''true'' else ''false'')"
| "serialize gap indent (JNum n) = Some (number_string n)"
| "serialize gap indent (JStr s) = Some (quote s)"
| "serialize gap indent (JArr vs) =
     (let stepback = indent;
          indent = indent @ gap;
          partial = map (\<lambda>v. case serialize gap indent v of None \<Rightarrow> ''null'' | Some s \<Rightarrow> s) vs
      in Some (if partial = [] then ''[]''
               else if gap = [] then ''['' @ join '','' partial @ '']''
               else ''['' @ [nl] @ indent @ join ('','' @ [nl] @ indent) partial
                    @ [nl] @ stepback @ '']''))"
| "serialize gap indent (JObj kvs) =
     (let stepback = indent;
          indent = indent @ gap;
          partial = concat (map (\<lambda>(k, v).
             (case k of
                Sym _ \<Rightarrow> []
              | Str s \<Rightarrow>
                  (case serialize gap indent v of
                     None \<Rightarrow> []
                   | Some p \<Rightarrow> [quote s @ '':'' @ (if gap = [] then [] else '' '') @ p]))) kvs)
      in Some (if partial = [] then ''{}''
               else if gap = [] then ''{'' @ join '','' partial @ ''}''
               else ''{'' @ [nl] @ indent @ join ('','' @ [nl] @ indent) partial
                    @ [nl] @ stepback @ ''}''))"

section \<open>The schema builder\<close>

text \<open>
  Modelled from the spec: the schema builder (\<^verbatim>\<open>Type\<close>, imported from the library
  \<^verbatim>\<open>@sinclair/typebox\<close> at line 15) is not under \<^verbatim>\<open>src/\<close>. Each builder returns the
  JSON Schema Draft 07 fragment that the specification describes for the declared shape
  (sections 3, 6 and 8: an object with its \<^verbatim>\<open>properties\<close>, the names of the
  non-optional ones under \<^verbatim>\<open>required\<close>, and the options given; a union as \<^verbatim>\<open>anyOf\<close>; a
  literal as \<^verbatim>\<open>const\<close>; a string-keyed record as an open mapping under
  \<^verbatim>\<open>patternProperties\<close>), carrying the builder's bookkeeping under symbol keys (section 9).
  The options come first in an object and the builder's own fields follow.
\<close>

definition Kind :: key where
  "Kind = Sym ''TypeBox.Kind''"

definition OptionalKind :: key where
  "OptionalKind = Sym ''TypeBox.Optional''"

text \<open>The object spread \<^verbatim>\<open>{ ...a, ...b }\<close>.\<close>

definition spread :: "props \<Rightarrow> props \<Rightarrow> props" where
  "spread a b = foldl (\<lambda>acc (k, v). AList.update k v acc) a b"

definition CreateType :: "props \<Rightarrow> props \<Rightarrow> props" where
  "CreateType schema options = spread options schema"

definition Type_String :: "props \<Rightarrow> props" where
  "Type_String options = CreateType [(Kind, JStr ''String''), (Str ''type'', JStr ''string'')] options"

definition Type_Number :: "props \<Rightarrow> props" where
  "Type_Number options = CreateType [(Kind, JStr ''Number''), (Str ''type'', JStr ''number'')] options"

definition Type_Boolean :: "props \<Rightarrow> props" where
  "Type_Boolean options = CreateType [(Kind, JStr ''Boolean''), (Str ''type'', JStr ''boolean'')] options"

definition Type_Literal :: "string \<Rightarrow> props" where
  "Type_Literal v =
     CreateType [(Kind, JStr ''Literal''), (Str ''const'', JStr v), (Str ''type'', JStr ''string'')] []"

definition Type_Optional :: "props \<Rightarrow> props" where
  "Type_Optional schema = spread schema [(OptionalKind, JStr ''Optional'')]"

definition Type_Array :: "props \<Rightarrow> props \<Rightarrow> props" where
  "Type_Array items options =
     CreateType [(Kind, JStr ''Array''), (Str ''type'', JStr ''array''), (Str ''items'', JObj items)]
       options"

definition Type_Never :: "props \<Rightarrow> props" where
  "Type_Never options = CreateType [(Kind, JStr ''Never''), (Str ''not'', JObj [])] options"

definition Type_Union :: "props list \<Rightarrow> props \<Rightarrow> props" where
  "Type_Union types options =
     (case types of
        [] \<Rightarrow> Type_Never options
      | [t] \<Rightarrow> CreateType t options
      | _ \<Rightarrow> CreateType [(Kind, JStr ''Union''), (Str ''anyOf'', JArr (map JObj types))] options)"

text \<open>The names of the properties that are not marked optional.\<close>

definition RequiredKeys :: "(string \<times> props) list \<Rightarrow> string list" where
  "RequiredKeys properties =
     map fst (filter (\<lambda>(k, s). map_of s OptionalKind = None) properties)"

definition Type_Object :: "(string \<times> props) list \<Rightarrow> props \<Rightarrow> props" where
  "Type_Object properties options =
     (let required = RequiredKeys properties;
          fields = JObj (map (\<lambda>(k, s). (Str k, JObj s)) properties)
      in CreateType
           (if required \<noteq> []
            then [(Kind, JStr ''Object''), (Str ''type'', JStr ''object''),
                  (Str ''required'', JArr (map JStr required)), (Str ''properties'', fields)]
            else [(Kind, JStr ''Object''), (Str ''type'', JStr ''object''),
                  (Str ''properties'', fields)])
           options)"

text \<open>
  A record whose keys are strings: the pattern of the key schema, or the pattern that
  every string matches.
\<close>

definition PatternStringExact :: string where
  "PatternStringExact = ''^(.*)$''"

definition Type_Record :: "props \<Rightarrow> props \<Rightarrow> props \<Rightarrow> props" where
  "Type_Record key val options =
     (let pattern = (case map_of key (Str ''pattern'') of
                       Some (JStr p) \<Rightarrow> p
                     | _ \<Rightarrow> PatternStringExact)
      in CreateType
           [(Kind, JStr ''Record''), (Str ''type'', JStr ''object''),
            (Str ''patternProperties'', JObj [(Str pattern, JObj val)])]
           options)"

text \<open>Options, as the definitions write them.\<close>

definition description_opt :: "string \<Rightarrow> props" where
  "description_opt d = [(Str ''description'', JStr d)]"

definition closed_opt :: props where
  "closed_opt = [(Str ''additionalProperties'', JBool False)]"

section \<open>The schema definitions\<close>

subsection \<open>Settings (lines 28 to 196)\<close>

definition CompactionSettingsSchema :: props where
  "CompactionSettingsSchema = Type_Object
     [(''enabled'', Type_Optional (Type_Boolean
         (description_opt ''Enable automatic context compaction (default: true)''))),
      (''reserveTokens'', Type_Optional (Type_Number
         (description_opt ''Tokens reserved for prompt + LLM response (default: 16384)''))),
      (''keepRecentTokens'', Type_Optional (Type_Number
         (description_opt ''Tokens to keep from recent messages (default: 20000)'')))]
     closed_opt"

definition BranchSummarySettingsSchema :: props where
  "BranchSummarySettingsSchema = Type_Object
     [(''reserveTokens'', Type_Optional (Type_Number
         (description_opt ''Tokens reserved for prompt + LLM response (default: 16384)'')))]
     closed_opt"

definition RetrySettingsSchema :: props where
  "RetrySettingsSchema = Type_Object
     [(''enabled'', Type_Optional (Type_Boolean
         (description_opt ''Enable automatic retries on transient errors (default: true)''))),
      (''maxRetries'', Type_Optional (Type_Number
         (description_opt ''Maximum retry attempts (default: 3)''))),
      (''baseDelayMs'', Type_Optional (Type_Number
         (description_opt ''Base delay for exponential backoff in ms (default: 2000)'')))]
     closed_opt"

definition TerminalSettingsSchema :: props where
  "TerminalSettingsSchema = Type_Object
     [(''showImages'', Type_Optional (Type_Boolean
         (description_opt ''Show images in terminal if supported (default: true)'')))]
     closed_opt"

definition ImageSettingsSchema :: props where
  "ImageSettingsSchema = Type_Object
     [(''autoResize'', Type_Optional (Type_Boolean
         (description_opt ''Resize images to 2000x2000 max for better model compatibility (default: true)''))),
      (''blockImages'', Type_Optional (Type_Boolean
         (description_opt ''Prevent all images from being sent to LLM providers (default: false)'')))]
     closed_opt"

definition ThinkingBudgetsSettingsSchema :: props where
  "ThinkingBudgetsSettingsSchema = Type_Object
     [(''minimal'', Type_Optional (Type_Number (description_opt ''Token budget for minimal thinking level''))),
      (''low'', Type_Optional (Type_Number (description_opt ''Token budget for low thinking level''))),
      (''medium'', Type_Optional (Type_Number (description_opt ''Token budget for medium thinking level''))),
      (''high'', Type_Optional (Type_Number (description_opt ''Token budget for high thinking level'')))]
     closed_opt"

definition MarkdownSettingsSchema :: props where
  \<open>MarkdownSettingsSchema = Type_Object
     [(''codeBlockIndent'', Type_Optional (Type_String
         (description_opt ''Indentation for code blocks (default: "  ")'')))]
     closed_opt\<close>

definition PackageSourceObjectSchema :: props where
  "PackageSourceObjectSchema = Type_Object
     [(''source'', Type_String (description_opt ''npm package name or git URL'')),
      (''extensions'', Type_Optional (Type_Array (Type_String [])
         (description_opt ''Filter to specific extensions''))),
      (''skills'', Type_Optional (Type_Array (Type_String [])
         (description_opt ''Filter to specific skills''))),
      (''prompts'', Type_Optional (Type_Array (Type_String [])
         (description_opt ''Filter to specific prompt templates''))),
      (''themes'', Type_Optional (Type_Array (Type_String [])
         (description_opt ''Filter to specific themes'')))]
     closed_opt"

definition PackageSourceSchema :: props where
  "PackageSourceSchema = Type_Union
     [Type_String (description_opt ''npm package name or git URL (loads all resources)''),
      PackageSourceObjectSchema]
     []"

definition SettingsSchema :: props where
  \<open>SettingsSchema = Type_Object
     [(''$schema'', Type_Optional (Type_String (description_opt ''JSON Schema reference''))),
      (''lastChangelogVersion'', Type_Optional (Type_String
         (description_opt ''Last seen changelog version (internal use)''))),
      (''defaultProvider'', Type_Optional (Type_String
         (description_opt ''Default LLM provider (e.g., 'anthropic', 'openai')''))),
      (''defaultModel'', Type_Optional (Type_String
         (description_opt ''Default model ID (e.g., 'claude-sonnet-4-20250514')''))),
      (''defaultThinkingLevel'', Type_Optional (Type_Union
         [Type_Literal ''off'', Type_Literal ''minimal'', Type_Literal ''low'',
          Type_Literal ''medium'', Type_Literal ''high'', Type_Literal ''xhigh'']
         (description_opt ''Default thinking/reasoning level for models that support it''))),
      (''steeringMode'', Type_Optional (Type_Union
         [Type_Literal ''all'', Type_Literal ''one-at-a-time'']
         (description_opt ''How to handle multiple steering messages (default: 'one-at-a-time')''))),
      (''followUpMode'', Type_Optional (Type_Union
         [Type_Literal ''all'', Type_Literal ''one-at-a-time'']
         (description_opt ''How to handle multiple follow-up messages (default: 'one-at-a-time')''))),
      (''theme'', Type_Optional (Type_String
         (description_opt ''Theme name (e.g., 'dark', 'light', 'solarized')''))),
      (''compaction'', Type_Optional CompactionSettingsSchema),
      (''branchSummary'', Type_Optional BranchSummarySettingsSchema),
      (''retry'', Type_Optional RetrySettingsSchema),
      (''hideThinkingBlock'', Type_Optional (Type_Boolean
         (description_opt ''Hide the thinking/reasoning block in output (default: false)''))),
      (''shellPath'', Type_Optional (Type_String
         (description_opt ''Custom shell path (e.g., for Cygwin users on Windows)''))),
      (''quietStartup'', Type_Optional (Type_Boolean
         (description_opt ''Suppress startup messages (default: false)''))),
      (''shellCommandPrefix'', Type_Optional (Type_String
         (description_opt ''Prefix prepended to every bash command (e.g., "shopt -s expand_aliases" for alias support)''))),
      (''collapseChangelog'', Type_Optional (Type_Boolean
         (description_opt ''Show condensed changelog after update (default: false)''))),
      (''packages'', Type_Optional (Type_Array PackageSourceSchema
         (description_opt ''npm/git packages to load extensions, skills, prompts, themes from''))),
      (''extensions'', Type_Optional (Type_Array (Type_String [])
         (description_opt ''Local extension file paths or directories''))),
      (''skills'', Type_Optional (Type_Array (Type_String [])
         (description_opt ''Local skill file paths or directories''))),
      (''prompts'', Type_Optional (Type_Array (Type_String [])
         (description_opt ''Local prompt template paths or directories''))),
      (''themes'', Type_Optional (Type_Array (Type_String [])
         (description_opt ''Local theme file paths or directories''))),
      (''enableSkillCommands'', Type_Optional (Type_Boolean
         (description_opt ''Register skills as /skill:name commands (default: true)''))),
      (''terminal'', Type_Optional TerminalSettingsSchema),
      (''images'', Type_Optional ImageSettingsSchema),
      (''enabledModels'', Type_Optional (Type_Array (Type_String [])
         (description_opt ''Model patterns for cycling (same format as --models CLI flag)''))),
      (''doubleEscapeAction'', Type_Optional (Type_Union
         [Type_Literal ''fork'', Type_Literal ''tree'']
         (description_opt ''Action for double-escape with empty editor (default: "tree")''))),
      (''thinkingBudgets'', Type_Optional ThinkingBudgetsSettingsSchema),
      (''editorPaddingX'', Type_Optional (Type_Number
         [(Str ''minimum'', JNum 0), (Str ''maximum'', JNum 3),
          (Str ''description'', JStr ''Horizontal padding for input editor (default: 0)'')])),
      (''showHardwareCursor'', Type_Optional (Type_Boolean
         (description_opt ''Show terminal cursor while still positioning it for IME (default: false)''))),
      (''markdown'', Type_Optional MarkdownSettingsSchema)]
     [(Str ''$id'', JStr ''https://buildwithpi.ai/schemas/settings.schema.json''),
      (Str ''title'', JStr ''Pi Coding Agent Settings''),
      (Str ''description'', JStr
         ''Configuration file for pi coding agent (~/.pi/agent/settings.json or .pi/settings.json)''),
      (Str ''additionalProperties'', JBool False)]\<close>

subsection \<open>Models (lines 202 to 317)\<close>

definition OpenRouterRoutingSchema :: props where
  "OpenRouterRoutingSchema = Type_Object
     [(''only'', Type_Optional (Type_Array (Type_String [])
         (description_opt ''Only use these providers''))),
      (''order'', Type_Optional (Type_Array (Type_String [])
         (description_opt ''Prefer providers in this order'')))]
     closed_opt"

definition OpenAICompletionsCompatSchema :: props where
  "OpenAICompletionsCompatSchema = Type_Object
     [(''supportsStore'', Type_Optional (Type_Boolean (description_opt ''Supports store parameter''))),
      (''supportsDeveloperRole'', Type_Optional (Type_Boolean
         (description_opt ''Supports developer role messages''))),
      (''supportsReasoningEffort'', Type_Optional (Type_Boolean
         (description_opt ''Supports reasoning_effort parameter''))),
      (''supportsUsageInStreaming'', Type_Optional (Type_Boolean
         (description_opt ''Reports usage in streaming responses''))),
      (''maxTokensField'', Type_Optional (Type_Union
         [Type_Literal ''max_completion_tokens'', Type_Literal ''max_tokens'']
         (description_opt ''Which field to use for max tokens''))),
      (''requiresToolResultName'', Type_Optional (Type_Boolean
         (description_opt ''Requires name field in tool results''))),
      (''requiresAssistantAfterToolResult'', Type_Optional (Type_Boolean
         (description_opt ''Requires assistant message after tool result''))),
      (''requiresThinkingAsText'', Type_Optional (Type_Boolean
         (description_opt ''Requires thinking content as text''))),
      (''requiresMistralToolIds'', Type_Optional (Type_Boolean
         (description_opt ''Requires Mistral-style tool IDs''))),
      (''thinkingFormat'', Type_Optional (Type_Union
         [Type_Literal ''openai'', Type_Literal ''zai'']
         (description_opt ''Thinking block format''))),
      (''openRouterRouting'', Type_Optional OpenRouterRoutingSchema)]
     closed_opt"

definition OpenAIResponsesCompatSchema :: props where
  "OpenAIResponsesCompatSchema = Type_Object []
     [(Str ''additionalProperties'', JBool False),
      (Str ''description'', JStr ''Reserved for future use'')]"

definition OpenAICompatSchema :: props where
  "OpenAICompatSchema = Type_Union
     [OpenAICompletionsCompatSchema, OpenAIResponsesCompatSchema]
     (description_opt ''OpenAI API compatibility settings'')"

definition ModelCostSchema :: props where
  "ModelCostSchema = Type_Object
     [(''input'', Type_Number (description_opt ''Cost per million input tokens in USD'')),
      (''output'', Type_Number (description_opt ''Cost per million output tokens in USD'')),
      (''cacheRead'', Type_Number (description_opt ''Cost per million cached input tokens in USD'')),
      (''cacheWrite'', Type_Number (description_opt ''Cost per million cache write tokens in USD''))]
     closed_opt"

definition ModelDefinitionSchema :: props where
  \<open>ModelDefinitionSchema = Type_Object
     [(''id'', Type_String
         [(Str ''minLength'', JNum 1), (Str ''description'', JStr ''Model ID (e.g., 'gpt-4o')'')]),
      (''name'', Type_String
         [(Str ''minLength'', JNum 1), (Str ''description'', JStr ''Display name (e.g., 'GPT-4o')'')]),
      (''api'', Type_Optional (Type_String
         [(Str ''minLength'', JNum 1),
          (Str ''description'', JStr
             (''API type (overrides provider-level api). E.g., 'openai-chat-stream', 'anthropic-stream'' @ [CHR 0x27]))])),
      (''reasoning'', Type_Boolean
         (description_opt ''Whether the model supports extended thinking/reasoning'')),
      (''input'', Type_Array (Type_Union [Type_Literal ''text'', Type_Literal ''image''] [])
         (description_opt ''Supported input modalities'')),
      (''cost'', ModelCostSchema),
      (''contextWindow'', Type_Number
         [(Str ''minimum'', JNum 1),
          (Str ''description'', JStr ''Maximum context window size in tokens'')]),
      (''maxTokens'', Type_Number
         [(Str ''minimum'', JNum 1), (Str ''description'', JStr ''Maximum output tokens'')]),
      (''headers'', Type_Optional (Type_Record (Type_String []) (Type_String [])
         (description_opt ''Custom headers for this model (overrides provider headers)''))),
      (''compat'', Type_Optional OpenAICompatSchema)]
     closed_opt\<close>

definition ProviderConfigSchema :: props where
  \<open>ProviderConfigSchema = Type_Object
     [(''baseUrl'', Type_Optional (Type_String
         [(Str ''minLength'', JNum 1), (Str ''description'', JStr ''Base URL for API requests'')])),
      (''apiKey'', Type_Optional (Type_String
         [(Str ''minLength'', JNum 1),
          (Str ''description'', JStr
             (''API key, env var name, or shell command (prefix with !). E.g., 'OPENAI_API_KEY' or '!op read ...'' @ [CHR 0x27]))])),
      (''api'', Type_Optional (Type_String
         [(Str ''minLength'', JNum 1),
          (Str ''description'', JStr
             (''Default API type for all models. E.g., 'openai-chat-stream', 'anthropic-stream'' @ [CHR 0x27]))])),
      (''headers'', Type_Optional (Type_Record (Type_String []) (Type_String [])
         (description_opt
            ''Custom headers for all models. Values can be env var names or shell commands (prefix with !)''))),
      (''authHeader'', Type_Optional (Type_Boolean
         (description_opt ''Add Authorization: Bearer header with resolved apiKey (default: false)''))),
      (''models'', Type_Optional (Type_Array ModelDefinitionSchema
         (description_opt ''Custom model definitions'')))]
     closed_opt\<close>

definition ModelsConfigSchema :: props where
  "ModelsConfigSchema = Type_Object
     [(''$schema'', Type_Optional (Type_String (description_opt ''JSON Schema reference''))),
      (''providers'', Type_Record (Type_String []) ProviderConfigSchema
         (description_opt ''Provider configurations keyed by provider name''))]
     [(Str ''$id'', JStr ''https://buildwithpi.ai/schemas/models.schema.json''),
      (Str ''title'', JStr ''Pi Coding Agent Models Configuration''),
      (Str ''description'', JStr
         ''Custom models and provider configuration (~/.pi/agent/models.json)''),
      (Str ''additionalProperties'', JBool False)]"

subsection \<open>Auth (lines 323 to 352)\<close>

definition ApiKeyCredentialSchema :: props where
  "ApiKeyCredentialSchema = Type_Object
     [(''type'', Type_Literal ''api_key''),
      (''key'', Type_String (description_opt ''The API key value''))]
     closed_opt"

definition OAuthCredentialSchema :: props where
  "OAuthCredentialSchema = Type_Object
     [(''type'', Type_Literal ''oauth''),
      (''access'', Type_String (description_opt ''OAuth access token'')),
      (''refresh'', Type_String (description_opt ''OAuth refresh token'')),
      (''expires'', Type_Number (description_opt ''Token expiration timestamp (ms since epoch)'')),
      (''accountId'', Type_Optional (Type_String (description_opt ''Account ID (provider-specific)'')))]
     [(Str ''additionalProperties'', JBool True),
      (Str ''description'', JStr ''OAuth credentials (may include provider-specific fields)'')]"

definition AuthCredentialSchema :: props where
  "AuthCredentialSchema = Type_Union
     [ApiKeyCredentialSchema, OAuthCredentialSchema]
     (description_opt ''Credential entry (API key or OAuth tokens)'')"

definition AuthStorageSchema :: props where
  "AuthStorageSchema = Type_Record (Type_String []) AuthCredentialSchema
     [(Str ''$id'', JStr ''https://buildwithpi.ai/schemas/auth.schema.json''),
      (Str ''title'', JStr ''Pi Coding Agent Auth Storage''),
      (Str ''description'', JStr
         ''Credential storage for API keys and OAuth tokens (~/.pi/agent/auth.json)'')]"

section \<open>The file system and the driver\<close>

text \<open>
  A path is the list of its components below the root. The file system holds the
  directories, the files with their contents, and the paths the process may not write to.
  An operation returns the world it leaves and the error it throws, if any. The errors are
  those of creating a directory and of opening a file for writing.
\<close>

type_synonym path = "string list"

datatype fs_error = ENOENT | ENOTDIR | EEXIST | EISDIR | EACCES

record world =
  dirs :: "path set"
  files :: "path \<rightharpoonup> string"
  readonly :: "path set"
  console :: "string list"

type_synonym outcome = "world \<times> fs_error option"

text \<open>\<^verbatim>\<open>mkdirSync(p, { recursive: true })\<close>: every missing directory on the way is created.\<close>

fun mkdir_from :: "path \<Rightarrow> string list \<Rightarrow> world \<Rightarrow> outcome" where
  "mkdir_from cur [] w = (w, None)"
| "mkdir_from cur (c # cs) w =
     (let p = cur @ [c] in
      if files w p \<noteq> None then (w, Some (if cs = [] then EEXIST else ENOTDIR))
      else if p \<in> dirs w then mkdir_from p cs w
      else if cur \<in> readonly w then (w, Some EACCES)
      else mkdir_from p cs (w\<lparr>dirs := insert p (dirs w)\<rparr>))"

definition mkdirSync :: "path \<Rightarrow> world \<Rightarrow> outcome" where
  "mkdirSync p w = mkdir_from [] p w"

text \<open>
  \<^verbatim>\<open>writeFileSync(p, data)\<close>: the file is created or replaced; the directory that holds it
  must exist.
\<close>

definition writeFileSync :: "path \<Rightarrow> string \<Rightarrow> world \<Rightarrow> outcome" where
  "writeFileSync p data w =
     (if p = [] \<or> p \<in> dirs w then (w, Some EISDIR)
      else if files w (butlast p) \<noteq> None then (w, Some ENOTDIR)
      else if butlast p \<notin> dirs w then (w, Some ENOENT)
      else if p \<in> readonly w \<or> (files w p = None \<and> butlast p \<in> readonly w)
        then (w, Some EACCES)
      else (w\<lparr>files := (files w)(p \<mapsto> data)\<rparr>, None))"

definition console_log :: "string \<Rightarrow> world \<Rightarrow> world" where
  "console_log line w = w\<lparr>console := console w @ [line]\<rparr>"

text \<open>Line 22: \<^verbatim>\<open>join(__dirname, "../schemas/pi-agent")\<close>, for the directory of the script.\<close>

definition schemasDir :: "path \<Rightarrow> path" where
  "schemasDir dirname = butlast dirname @ [''schemas'', ''pi-agent'']"

definition path_string :: "path \<Rightarrow> string" where
  "path_string p = (if p = [] then ''/'' else concat (map (\<lambda>c. ''/'' @ c) p))"

text \<open>
  The text that line 405 writes: \<^verbatim>\<open>JSON.stringify(schema, null, "\t") + "\n"\<close>. The
  concatenation turns a missing text into the word \<^verbatim>\<open>undefined\<close>.
\<close>

definition schema_text :: "jsval \<Rightarrow> string" where
  "schema_text schema =
     (case serialize [tab] [] schema of None \<Rightarrow> ''undefined'' | Some s \<Rightarrow> s) @ [nl]"

text \<open>\<^verbatim>\<open>writeSchema\<close> (lines 403 to 407).\<close>

definition writeSchema :: "path \<Rightarrow> string \<Rightarrow> jsval \<Rightarrow> world \<Rightarrow> outcome" where
  "writeSchema dirname filename schema w =
     (let path = schemasDir dirname @ [filename] in
      case writeFileSync path (schema_text schema) w of
        (w', Some e) \<Rightarrow> (w', Some e)
      | (w', None) \<Rightarrow> (console_log (''Generated: '' @ path_string path) w', None))"

text \<open>Statements in sequence: an error thrown by one ends the run.\<close>

definition and_then :: "outcome \<Rightarrow> (world \<Rightarrow> outcome) \<Rightarrow> outcome" where
  "and_then r f = (case r of (w, Some e) \<Rightarrow> (w, Some e) | (w, None) \<Rightarrow> f w)"

definition settings_document :: jsval where
  "settings_document =
     toJsonSchema SettingsSchema ''Pi Coding Agent Settings'' ''Configuration file for pi coding agent''"

definition models_document :: jsval where
  "models_document =
     toJsonSchema ModelsConfigSchema ''Pi Coding Agent Models Configuration''
       ''Custom models and provider configuration''"

definition auth_document :: jsval where
  "auth_document =
     toJsonSchema AuthStorageSchema ''Pi Coding Agent Auth Storage''
       ''Credential storage for API keys and OAuth tokens''"

text \<open>The four closing lines of the run (lines 427 to 430).\<close>

definition closing_lines :: "string list" where
  \<open>closing_lines =
     [[nl] @ ''Done! Add $schema to your config files for IDE validation:'',
      ''  settings.json: "$schema": "./schemas/settings.schema.json"'',
      ''  models.json:   "$schema": "./schemas/models.schema.json"'',
      ''  auth.json:     "$schema": "./schemas/auth.schema.json"'']\<close>

text \<open>The run of the script (lines 410 to 430), from the directory of the script.\<close>

definition main :: "path \<Rightarrow> world \<Rightarrow> outcome" where
  "main dirname w =
     and_then (mkdirSync (schemasDir dirname) w) (\<lambda>w.
     and_then (writeSchema dirname ''settings.schema.json'' settings_document w) (\<lambda>w.
     and_then (writeSchema dirname ''models.schema.json'' models_document w) (\<lambda>w.
     and_then (writeSchema dirname ''auth.schema.json'' auth_document w) (\<lambda>w.
       (w\<lparr>console := console w @ closing_lines\<rparr>, None)))))"

section \<open>What a run leaves\<close>

text \<open>The line that reports a written path (line 406).\<close>

definition report :: "path \<Rightarrow> string" where
  "report p = ''Generated: '' @ path_string p"

text \<open>
  The three documents of the run in its order (settings, models, auth): the destination of
  each and the text written there.
\<close>

definition outputs :: "path \<Rightarrow> (path \<times> string) list" where
  "outputs dirname =
     [(schemasDir dirname @ [''settings.schema.json''], schema_text settings_document),
      (schemasDir dirname @ [''models.schema.json''], schema_text models_document),
      (schemasDir dirname @ [''auth.schema.json''], schema_text auth_document)]"

text \<open>The files after writing a list of texts, one after the other.\<close>

definition store_all :: "(path \<rightharpoonup> string) \<Rightarrow> (path \<times> string) list \<Rightarrow> (path \<rightharpoonup> string)" where
  "store_all f xs = foldl (\<lambda>f (p, t). f(p \<mapsto> t)) f xs"

text \<open>The condition under which \<^verbatim>\<open>writeFileSync\<close> succeeds.\<close>

definition can_write :: "path \<Rightarrow> world \<Rightarrow> bool" where
  "can_write p w =
     (p \<noteq> [] \<and> p \<notin> dirs w \<and> files w (butlast p) = None \<and> butlast p \<in> dirs w \<and>
      p \<notin> readonly w \<and> (files w p \<noteq> None \<or> butlast p \<notin> readonly w))"

text \<open>All three destinations can be written.\<close>

definition ready :: "path \<Rightarrow> world \<Rightarrow> bool" where
  "ready d w = list_all (\<lambda>(p, t). can_write p w) (outputs d)"

text \<open>The world after the three writes and the closing lines.\<close>

definition finished :: "path \<Rightarrow> world \<Rightarrow> world" where
  "finished d w =
     w\<lparr>files := store_all (files w) (outputs d),
       console := console w @ map (\<lambda>(p, t). report p) (outputs d) @ closing_lines\<rparr>"

text \<open>
  Every line break of a text is followed by the given indentation: the lines after the
  first begin with it.
\<close>

fun indented :: "string \<Rightarrow> string \<Rightarrow> bool" where
  "indented ind [] = True"
| "indented ind (c # cs) = ((if c = nl then take (length ind) cs = ind else True) \<and> indented ind cs)"

section \<open>Validation against a schema\<close>

text \<open>
  Modelled from the spec: a JSON Schema validator is not part of the repository (section 1
  excludes a validation engine), and the end-to-end scenario of section 8 is about
  validation under JSON Schema Draft 07, the dialect of section 6. The function below is
  the Draft 07 validation of an instance against a schema, for the validation keywords of
  the auth document: \<^verbatim>\<open>type\<close>, \<^verbatim>\<open>const\<close>, \<^verbatim>\<open>anyOf\<close>, \<^verbatim>\<open>required\<close>, \<^verbatim>\<open>properties\<close>,
  \<^verbatim>\<open>patternProperties\<close> and \<^verbatim>\<open>additionalProperties\<close>; the annotations (\<^verbatim>\<open>$schema\<close>,
  \<^verbatim>\<open>$id\<close>, \<^verbatim>\<open>title\<close>, \<^verbatim>\<open>description\<close>) constrain nothing. The regular expression test
  of \<^verbatim>\<open>patternProperties\<close> is a parameter.
\<close>

fun has_type :: "string \<Rightarrow> jsval \<Rightarrow> bool" where
  "has_type t JNull = (t = ''null'')"
| "has_type t (JBool _) = (t = ''boolean'')"
| "has_type t (JNum _) = (t = ''number'' \<or> t = ''integer'')"
| "has_type t (JStr _) = (t = ''string'')"
| "has_type t (JArr _) = (t = ''array'')"
| "has_type t (JObj _) = (t = ''object'')"
| "has_type t JUndefined = False"

text \<open>The value of a keyword that holds an object of subschemas, or a list.\<close>

definition object_keyword :: "props \<Rightarrow> string \<Rightarrow> props" where
  "object_keyword kw k = (case map_of kw (Str k) of Some (JObj ps) \<Rightarrow> ps | _ \<Rightarrow> [])"

definition array_keyword :: "props \<Rightarrow> string \<Rightarrow> jsval list" where
  "array_keyword kw k = (case map_of kw (Str k) of Some (JArr xs) \<Rightarrow> xs | _ \<Rightarrow> [])"

text \<open>Subschemas are smaller than the schema: the validation terminates.\<close>

lemma size_member: "(k, v) \<in> set kvs \<Longrightarrow> size v < size (JObj kvs)"
  by (induction kvs) auto

lemma size_item: "v \<in> set vs \<Longrightarrow> size v < size (JArr vs)"
  by (induction vs) auto

lemma size_keyword: "map_of kw k = Some s \<Longrightarrow> size s < size (JObj kw)"
  by (rule size_member) (rule map_of_SomeD)

lemma size_object_keyword: "(k', s) \<in> set (object_keyword kw k) \<Longrightarrow> size s < size (JObj kw)"
proof -
  assume a: "(k', s) \<in> set (object_keyword kw k)"
  have "\<exists>ps. map_of kw (Str k) = Some (JObj ps) \<and> object_keyword kw k = ps"
  proof (cases "map_of kw (Str k)")
    case None
    with a show ?thesis by (simp add: object_keyword_def)
  next
    case (Some x)
    with a show ?thesis by (cases x) (simp_all add: object_keyword_def)
  qed
  then obtain ps where m: "map_of kw (Str k) = Some (JObj ps)" and ps: "object_keyword kw k = ps"
    by blast
  from a have "(k', s) \<in> set ps" by (simp only: ps)
  then have "size s < size (JObj ps)" by (rule size_member)
  also from m have "\<dots> < size (JObj kw)" by (rule size_keyword)
  finally show ?thesis .
qed

lemma size_array_keyword: "s \<in> set (array_keyword kw k) \<Longrightarrow> size s < size (JObj kw)"
proof -
  assume a: "s \<in> set (array_keyword kw k)"
  have "\<exists>xs. map_of kw (Str k) = Some (JArr xs) \<and> array_keyword kw k = xs"
  proof (cases "map_of kw (Str k)")
    case None
    with a show ?thesis by (simp add: array_keyword_def)
  next
    case (Some x)
    with a show ?thesis by (cases x) (simp_all add: array_keyword_def)
  qed
  then obtain xs where m: "map_of kw (Str k) = Some (JArr xs)" and xs: "array_keyword kw k = xs"
    by blast
  from a have "s \<in> set xs" by (simp only: xs)
  then have "size s < size (JArr xs)" by (rule size_item)
  also from m have "\<dots> < size (JObj kw)" by (rule size_keyword)
  finally show ?thesis .
qed

text \<open>
  An object instance must have the required properties; each of its properties is
  validated against the subschema of \<^verbatim>\<open>properties\<close> of that name and against the subschema
  of every pattern of \<^verbatim>\<open>patternProperties\<close> that its name matches, and against
  \<^verbatim>\<open>additionalProperties\<close> when there is neither.
\<close>

function valid :: "(string \<Rightarrow> string \<Rightarrow> bool) \<Rightarrow> jsval \<Rightarrow> jsval \<Rightarrow> bool" where
  "valid rx (JBool b) inst = b"
| "valid rx (JObj kw) inst =
     ((case map_of kw (Str ''type'') of
         Some (JStr t) \<Rightarrow> has_type t inst
       | Some (JArr ts) \<Rightarrow> list_ex (\<lambda>t. case t of JStr n \<Rightarrow> has_type n inst | _ \<Rightarrow> False) ts
       | _ \<Rightarrow> True) \<and>
      (case map_of kw (Str ''const'') of Some c \<Rightarrow> inst = c | None \<Rightarrow> True) \<and>
      (if map_of kw (Str ''anyOf'') = None then True
       else list_ex (\<lambda>s. valid rx s inst) (array_keyword kw ''anyOf'')) \<and>
      (case inst of
         JObj members \<Rightarrow>
           list_all (\<lambda>r. case r of JStr n \<Rightarrow> map_of members (Str n) \<noteq> None | _ \<Rightarrow> True)
             (array_keyword kw ''required'') \<and>
           list_all (\<lambda>(k, v).
              (case k of
                 Sym _ \<Rightarrow> True
               | Str name \<Rightarrow>
                   list_all (\<lambda>(p, s). if p = Str name then valid rx s v else True)
                     (object_keyword kw ''properties'') \<and>
                   list_all (\<lambda>(p, s). case p of
                                Str pat \<Rightarrow> (if rx pat name then valid rx s v else True)
                              | Sym _ \<Rightarrow> True)
                     (object_keyword kw ''patternProperties'') \<and>
                   (if map_of (object_keyword kw ''properties'') (Str name) = None \<and>
                       \<not> list_ex (\<lambda>(p, s). case p of Str pat \<Rightarrow> rx pat name | Sym _ \<Rightarrow> False)
                            (object_keyword kw ''patternProperties'')
                    then (case map_of kw (Str ''additionalProperties'') of
                            Some s \<Rightarrow> valid rx s v
                          | None \<Rightarrow> True)
                    else True))) members
       | _ \<Rightarrow> True))"
| "valid rx JUndefined inst = False"
| "valid rx JNull inst = False"
| "valid rx (JNum n) inst = False"
| "valid rx (JStr s) inst = False"
| "valid rx (JArr xs) inst = False"
  by pat_completeness auto
termination
  by (relation "measure (\<lambda>(rx, s, i). size s)")
     (auto dest: size_keyword size_object_keyword size_array_keyword)


text \<open>A schema that uses no keyword but those above, and compares \<^verbatim>\<open>const\<close> with primitives only.\<close>

definition known_keywords :: "string list" where
  "known_keywords =
     [''$schema'', ''$id'', ''title'', ''description'',
      ''type'', ''const'', ''anyOf'', ''required'', ''properties'', ''patternProperties'',
      ''additionalProperties'']"

function only_known_keywords :: "jsval \<Rightarrow> bool" where
  "only_known_keywords (JBool b) = True"
| "only_known_keywords (JObj kw) =
     (list_all (\<lambda>(k, v). case k of Str n \<Rightarrow> n \<in> set known_keywords | Sym _ \<Rightarrow> False) kw \<and>
      (case map_of kw (Str ''const'') of Some c \<Rightarrow> \<not> is_object c | None \<Rightarrow> True) \<and>
      list_all only_known_keywords (array_keyword kw ''anyOf'') \<and>
      list_all (\<lambda>(p, s). only_known_keywords s) (object_keyword kw ''properties'') \<and>
      list_all (\<lambda>(p, s). only_known_keywords s) (object_keyword kw ''patternProperties'') \<and>
      (case map_of kw (Str ''additionalProperties'') of
         Some s \<Rightarrow> only_known_keywords s
       | None \<Rightarrow> True))"
| "only_known_keywords JUndefined = False"
| "only_known_keywords JNull = False"
| "only_known_keywords (JNum n) = False"
| "only_known_keywords (JStr s) = False"
| "only_known_keywords (JArr xs) = False"
  by pat_completeness auto
termination
  by (relation "measure size")
     (auto dest: size_keyword size_object_keyword size_array_keyword)

text \<open>
  A regular expression test that knows the one pattern of the documents: \<^verbatim>\<open>^(.*)$\<close>
  matches the strings without a line break.
\<close>

definition line_pattern_test :: "string \<Rightarrow> string \<Rightarrow> bool" where
  "line_pattern_test pat s = (pat = ''^(.*)$'' \<and> CHR 0x0A \<notin> set s \<and> CHR 0x0D \<notin> set s)"

text \<open>The two documents of the scenario.\<close>

definition work_api_key :: jsval where
  "work_api_key = JObj [(Str ''work'', JObj [(Str ''type'', JStr ''api_key''), (Str ''key'', JStr ''sk-1'')])]"

definition work_missing_key :: jsval where
  "work_missing_key = JObj [(Str ''work'', JObj [(Str ''type'', JStr ''api_key'')])]"

section \<open>Objects in the store\<close>

text \<open>
  The normalizer copies its argument and then changes the copy in place. To say that the
  argument stays as it was, objects get an identity: a value is a primitive or a reference
  to a cell of the store, a cell holds the properties of an object or the elements of an
  array, and the store is the list of the cells allocated so far, a new cell at its end.
\<close>

type_synonym addr = nat

datatype val = VUndefined | VNull | VBool bool | VNum int | VStr string | VRef addr

datatype cell = CObj "(key \<times> val) list" | CArr "val list"

type_synonym store = "cell list"

text \<open>
  The tree below a value, read to a bounded depth: the traversal of \<^verbatim>\<open>JSON.stringify\<close>,
  and the deep-equality snapshot of a test. Reading fails on a reference outside the store
  and when the depth is used up, as it is on a cyclic structure, where the serializer
  throws.
\<close>

fun snapshot :: "nat \<Rightarrow> store \<Rightarrow> val \<Rightarrow> jsval option" where
  "snapshot n h VUndefined = Some JUndefined"
| "snapshot n h VNull = Some JNull"
| "snapshot n h (VBool b) = Some (JBool b)"
| "snapshot n h (VNum i) = Some (JNum i)"
| "snapshot n h (VStr s) = Some (JStr s)"
| "snapshot 0 h (VRef a) = None"
| "snapshot (Suc n) h (VRef a) =
     (if a < length h then
        (case h ! a of
           CObj ps \<Rightarrow>
             map_option JObj (those (map (\<lambda>(k, v). map_option (Pair k) (snapshot n h v)) ps))
         | CArr vs \<Rightarrow> map_option JArr (those (map (snapshot n h) vs)))
      else None)"

text \<open>\<^verbatim>\<open>JSON.parse\<close> builds the tree of a text from fresh objects.\<close>

function alloc :: "store \<Rightarrow> jsval \<Rightarrow> store \<times> val"
  and alloc_props :: "store \<Rightarrow> props \<Rightarrow> store \<times> (key \<times> val) list"
  and alloc_items :: "store \<Rightarrow> jsval list \<Rightarrow> store \<times> val list" where
  "alloc h JUndefined = (h, VUndefined)"
| "alloc h JNull = (h, VNull)"
| "alloc h (JBool b) = (h, VBool b)"
| "alloc h (JNum i) = (h, VNum i)"
| "alloc h (JStr s) = (h, VStr s)"
| "alloc h (JObj kvs) = (case alloc_props h kvs of (h', ps) \<Rightarrow> (h' @ [CObj ps], VRef (length h')))"
| "alloc h (JArr ts) = (case alloc_items h ts of (h', vs) \<Rightarrow> (h' @ [CArr vs], VRef (length h')))"
| "alloc_props h [] = (h, [])"
| "alloc_props h ((k, t) # kvs) =
     (case alloc h t of (h1, v) \<Rightarrow>
        (case alloc_props h1 kvs of (h2, ps) \<Rightarrow> (h2, (k, v) # ps)))"
| "alloc_items h [] = (h, [])"
| "alloc_items h (t # ts) =
     (case alloc h t of (h1, v) \<Rightarrow>
        (case alloc_items h1 ts of (h2, vs) \<Rightarrow> (h2, v # vs)))"
  by pat_completeness auto
termination
  by (relation "measure (\<lambda>x. case x of
         Inl (h, t) \<Rightarrow> size t
       | Inr (Inl (h, kvs)) \<Rightarrow> size_list (size_prod (\<lambda>k. 0) size) kvs
       | Inr (Inr (h, ts)) \<Rightarrow> size_list size ts)") auto

text \<open>Reading and writing a property of the object at an address.\<close>

fun to_jsval :: "val \<Rightarrow> jsval" where
  "to_jsval VUndefined = JUndefined"
| "to_jsval VNull = JNull"
| "to_jsval (VBool b) = JBool b"
| "to_jsval (VNum i) = JNum i"
| "to_jsval (VStr s) = JStr s"
| "to_jsval (VRef a) = JObj []"

definition truthy_h :: "val \<Rightarrow> bool" where
  "truthy_h v = truthy (to_jsval v)"

definition get_prop_h :: "store \<Rightarrow> addr \<Rightarrow> string \<Rightarrow> val" where
  "get_prop_h h a k =
     (case h ! a of
        CObj ps \<Rightarrow> (case map_of ps (Str k) of None \<Rightarrow> VUndefined | Some v \<Rightarrow> v)
      | CArr vs \<Rightarrow> VUndefined)"

definition set_prop_h :: "store \<Rightarrow> addr \<Rightarrow> string \<Rightarrow> val \<Rightarrow> store" where
  "set_prop_h h a k v =
     (case h ! a of
        CObj ps \<Rightarrow> h[a := CObj (AList.update (Str k) v ps)]
      | CArr vs \<Rightarrow> h)"

text \<open>A loop over a list that threads the store and stops at a failure.\<close>

fun fold_opt :: "('a \<Rightarrow> 's \<Rightarrow> 's option) \<Rightarrow> 'a list \<Rightarrow> 's \<Rightarrow> 's option" where
  "fold_opt f [] s = Some s"
| "fold_opt f (x # xs) s = (case f x s of None \<Rightarrow> None | Some s' \<Rightarrow> fold_opt f xs s')"

text \<open>
  \<^verbatim>\<open>cleanSchema\<close> (lines 375 to 397) on the store. The first loop deletes the marked keys
  of the object in place; the second goes through the values of the object as they are
  then. The depth bounds the nesting of the calls.
\<close>

fun cleanSchema_h :: "nat \<Rightarrow> val \<Rightarrow> store \<Rightarrow> store option" where
  "cleanSchema_h n VUndefined h = Some h"
| "cleanSchema_h n VNull h = Some h"
| "cleanSchema_h n (VBool b) h = Some h"
| "cleanSchema_h n (VNum i) h = Some h"
| "cleanSchema_h n (VStr s) h = Some h"
| "cleanSchema_h 0 (VRef a) h = None"
| "cleanSchema_h (Suc n) (VRef a) h =
     (if a < length h then
        (let h1 = (case h ! a of
                     CObj ps \<Rightarrow> h[a := CObj (filter (\<lambda>(k, v). \<not> is_marker k) ps)]
                   | CArr vs \<Rightarrow> h);
             vals = (case h1 ! a of
                       CObj ps \<Rightarrow> map snd (filter (\<lambda>(k, v). enumerable k) ps)
                     | CArr vs \<Rightarrow> vs)
         in fold_opt
              (\<lambda>val h.
                 case val of
                   VRef b \<Rightarrow>
                     (if b < length h then
                        (case h ! b of
                           CArr items \<Rightarrow>
                             fold_opt
                               (\<lambda>item h. case item of
                                            VRef c \<Rightarrow> cleanSchema_h n item h
                                          | _ \<Rightarrow> Some h)
                               items h
                         | CObj ps \<Rightarrow> cleanSchema_h n val h)
                      else None)
                 | _ \<Rightarrow> Some h)
              vals h1)
      else None)"

text \<open>
  \<^verbatim>\<open>toJsonSchema\<close> (lines 363 to 401) on the store: the argument is the address of the
  definition, the result the store after the call and the value returned. The parameter
  has the object type \<^verbatim>\<open>TSchema\<close>: there is no result where the address holds no object, and
  none where the serializer of line 365 gives none (a cyclic structure, on which it throws,
  or one deeper than the bound).
\<close>

definition toJsonSchema_h ::
  "nat \<Rightarrow> store \<Rightarrow> addr \<Rightarrow> string \<Rightarrow> string \<Rightarrow> (store \<times> val) option" where
  "toJsonSchema_h n h schema title description =
     (case snapshot n h (VRef schema) of
        Some (JObj ps) \<Rightarrow>
          (case alloc h (json_clone (JObj ps)) of
             (h0, VRef a) \<Rightarrow>
               (let h1 = set_prop_h h0 a ''$schema'' (VStr draft07);
                    h2 = (if \<not> truthy_h (get_prop_h h1 a ''title'')
                          then set_prop_h h1 a ''title'' (VStr title) else h1);
                    h3 = (if \<not> truthy_h (get_prop_h h2 a ''description'')
                          then set_prop_h h2 a ''description'' (VStr description) else h2)
                in map_option (\<lambda>h4. (h4, VRef a)) (cleanSchema_h n (VRef a) h3))
           | _ \<Rightarrow> None)
      | _ \<Rightarrow> None)"

text \<open>The text that the writer produces from the value returned (line 405).\<close>

definition generate :: "nat \<Rightarrow> store \<Rightarrow> addr \<Rightarrow> string \<Rightarrow> string \<Rightarrow> string option" where
  "generate n h schema title description =
     (case toJsonSchema_h n h schema title description of
        None \<Rightarrow> None
      | Some (h', out) \<Rightarrow> map_option schema_text (snapshot n h' out))"

text \<open>The nesting depth of a tree.\<close>

fun list_max :: "nat list \<Rightarrow> nat" where
  "list_max [] = 0"
| "list_max (x # xs) = max x (list_max xs)"

fun depth :: "jsval \<Rightarrow> nat" where
  "depth (JObj kvs) = Suc (list_max (map (\<lambda>(k, v). depth v) kvs))"
| "depth (JArr vs) = Suc (list_max (map depth vs))"
| "depth v = 0"

text \<open>
  A value of the store holds a tree within a range of addresses: the cell of an object
  lies above the cells of its values, which lie in consecutive ranges, one after the other.
\<close>

inductive holds :: "store \<Rightarrow> nat \<Rightarrow> nat \<Rightarrow> val \<Rightarrow> jsval \<Rightarrow> bool"
  and holds_list :: "store \<Rightarrow> nat \<Rightarrow> nat \<Rightarrow> val list \<Rightarrow> jsval list \<Rightarrow> bool" where
  holds_undefined: "lo \<le> hi \<Longrightarrow> holds h lo hi VUndefined JUndefined"
| holds_null: "lo \<le> hi \<Longrightarrow> holds h lo hi VNull JNull"
| holds_bool: "lo \<le> hi \<Longrightarrow> holds h lo hi (VBool b) (JBool b)"
| holds_num: "lo \<le> hi \<Longrightarrow> holds h lo hi (VNum i) (JNum i)"
| holds_str: "lo \<le> hi \<Longrightarrow> holds h lo hi (VStr s) (JStr s)"
| holds_obj: "lo \<le> a \<Longrightarrow> a < hi \<Longrightarrow> a < length h \<Longrightarrow> h ! a = CObj ps \<Longrightarrow>
     map fst ps = map fst kvs \<Longrightarrow> holds_list h lo a (map snd ps) (map snd kvs) \<Longrightarrow>
     holds h lo hi (VRef a) (JObj kvs)"
| holds_arr: "lo \<le> a \<Longrightarrow> a < hi \<Longrightarrow> a < length h \<Longrightarrow> h ! a = CArr vs \<Longrightarrow>
     holds_list h lo a vs ts \<Longrightarrow> holds h lo hi (VRef a) (JArr ts)"
| holds_nil: "lo \<le> hi \<Longrightarrow> holds_list h lo hi [] []"
| holds_cons: "holds h lo mid v t \<Longrightarrow> holds_list h mid hi vs ts \<Longrightarrow>
     holds_list h lo hi (v # vs) (t # ts)"

text \<open>A store agrees with another one on a range of addresses, and outside of one.\<close>

definition same_within :: "store \<Rightarrow> store \<Rightarrow> nat \<Rightarrow> nat \<Rightarrow> bool" where
  "same_within h h' lo hi =
     (length h \<le> length h' \<and> (\<forall>a. lo \<le> a \<and> a < hi \<and> a < length h \<longrightarrow> h' ! a = h ! a))"

definition same_outside :: "store \<Rightarrow> store \<Rightarrow> nat \<Rightarrow> nat \<Rightarrow> bool" where
  "same_outside h h' lo hi =
     (length h' = length h \<and> (\<forall>a. a < length h \<and> (a < lo \<or> hi \<le> a) \<longrightarrow> h' ! a = h ! a))"

text \<open>What a held value or list tells about the store.\<close>

inductive_cases holds_list_NilE: "holds_list h lo hi [] ts"
inductive_cases holds_list_ConsE: "holds_list h lo hi (v # vs) ts"
inductive_cases holds_list_Cons2E: "holds_list h lo hi vs (t # ts)"
inductive_cases holds_objE: "holds h lo hi v (JObj kvs)"
inductive_cases holds_arrE: "holds h lo hi v (JArr ts)"
inductive_cases holds_refE: "holds h lo hi (VRef a) t"

text \<open>The bodies of the two inner loops of \<^verbatim>\<open>cleanSchema\<close>, by name.\<close>

definition item_step :: "nat \<Rightarrow> val \<Rightarrow> store \<Rightarrow> store option" where
  "item_step n item h = (case item of VRef c \<Rightarrow> cleanSchema_h n item h | _ \<Rightarrow> Some h)"

definition value_step :: "nat \<Rightarrow> val \<Rightarrow> store \<Rightarrow> store option" where
  "value_step n val h =
     (case val of
        VRef b \<Rightarrow>
          (if b < length h then
             (case h ! b of
                CArr items \<Rightarrow> fold_opt (item_step n) items h
              | CObj ps \<Rightarrow> cleanSchema_h n val h)
           else None)
      | _ \<Rightarrow> Some h)"

section \<open>Properties of the normalizer\<close>

lemma is_json_json_clone: "v \<noteq> JUndefined \<Longrightarrow> is_json (json_clone v)"
  by (induction v rule: json_clone.induct) (auto simp: list_all_iff)

lemma is_json_object_clone: "is_json (json_clone (JObj ps))"
  by (rule is_json_json_clone) simp

lemma cleanSchema_strip: "is_json v \<Longrightarrow> cleanSchema v = strip_prefixed v"
proof (induction v rule: cleanSchema.induct)
  case (1 kvs)
  have "\<And>k v. (k, v) \<in> set kvs \<Longrightarrow> \<not> is_marker k \<Longrightarrow>
      (if enumerable k then
         (case v of
            JArr items \<Rightarrow> JArr (map (\<lambda>i. if is_object i then cleanSchema i else i) items)
          | JObj ps \<Rightarrow> cleanSchema v
          | _ \<Rightarrow> v)
       else v) = strip_prefixed v"
  proof -
    fix k v assume kv: "(k, v) \<in> set kvs" "\<not> is_marker k"
    with "1.prems" have e: "enumerable k" and j: "is_json v"
      by (auto simp: list_all_iff)
    show "(if enumerable k then
         (case v of
            JArr items \<Rightarrow> JArr (map (\<lambda>i. if is_object i then cleanSchema i else i) items)
          | JObj ps \<Rightarrow> cleanSchema v
          | _ \<Rightarrow> v)
       else v) = strip_prefixed v"
    proof (cases v)
      case (JArr items)
      have "\<And>i. i \<in> set items \<Longrightarrow> (if is_object i then cleanSchema i else i) = strip_prefixed i"
      proof -
        fix i assume i: "i \<in> set items"
        show "(if is_object i then cleanSchema i else i) = strip_prefixed i"
        proof (cases "is_object i")
          case True
          from j JArr i have "is_json i" by (auto simp: list_all_iff)
          with "1.IH"(1)[of "(k, v)" k v items i] kv e JArr i True show ?thesis by simp
        next
          case False
          then show ?thesis by (cases i) auto
        qed
      qed
      with JArr e show ?thesis by simp
    next
      case (JObj ps)
      with "1.IH"(2)[of "(k, v)" k v ps] kv e j show ?thesis by simp
    qed (use e in auto)
  qed
  then show ?case by auto
next
  case (2 vs)
  have "\<And>v. v \<in> set vs \<Longrightarrow>
      (case v of
         JArr items \<Rightarrow> JArr (map (\<lambda>i. if is_object i then cleanSchema i else i) items)
       | JObj ps \<Rightarrow> cleanSchema v
       | _ \<Rightarrow> v) = strip_prefixed v"
  proof -
    fix v assume v: "v \<in> set vs"
    with "2.prems" have j: "is_json v" by (auto simp: list_all_iff)
    show "(case v of
         JArr items \<Rightarrow> JArr (map (\<lambda>i. if is_object i then cleanSchema i else i) items)
       | JObj ps \<Rightarrow> cleanSchema v
       | _ \<Rightarrow> v) = strip_prefixed v"
    proof (cases v)
      case (JArr items)
      have "\<And>i. i \<in> set items \<Longrightarrow> (if is_object i then cleanSchema i else i) = strip_prefixed i"
      proof -
        fix i assume i: "i \<in> set items"
        show "(if is_object i then cleanSchema i else i) = strip_prefixed i"
        proof (cases "is_object i")
          case True
          from j JArr i have "is_json i" by (auto simp: list_all_iff)
          with "2.IH"(1)[of v items i] v JArr i True show ?thesis by simp
        next
          case False
          then show ?thesis by (cases i) auto
        qed
      qed
      with JArr show ?thesis by simp
    next
      case (JObj ps)
      with "2.IH"(2)[of v ps] v j show ?thesis by simp
    qed auto
  qed
  then show ?case by auto
qed auto

lemma marker_free_strip: "marker_free (strip_prefixed v)"
  by (induction v rule: strip_prefixed.induct) (auto simp: list_all_iff)




lemma get_set_prop: "get_prop (set_prop ps k v) k' = (if k' = k then v else get_prop ps k')"
  by (simp add: get_prop_def set_prop_def update_conv')

lemma map_of_set_prop:
  "map_of (set_prop ps k v) (Str k') = (if k' = k then Some v else map_of ps (Str k'))"
  by (simp add: set_prop_def update_conv')

lemma is_json_set_prop:
  "list_all (\<lambda>(k, v). enumerable k \<and> is_json v) ps \<Longrightarrow>
   list_all (\<lambda>(k, v). enumerable k \<and> is_json v) (set_prop ps k (JStr s))"
  unfolding set_prop_def by (induction ps) auto

lemma is_json_add_meta:
  "list_all (\<lambda>(k, v). enumerable k \<and> is_json v) ps \<Longrightarrow>
   list_all (\<lambda>(k, v). enumerable k \<and> is_json v) (add_meta ps t d)"
  by (simp add: add_meta_def Let_def is_json_set_prop)

lemma is_json_prepared: "is_json (JObj (add_meta (the_props (json_clone (JObj ps))) t d))"
proof -
  have "is_json (json_clone (JObj ps))" by (rule is_json_object_clone)
  then have "list_all (\<lambda>(k, v). enumerable k \<and> is_json v) (the_props (json_clone (JObj ps)))"
    by simp
  then show ?thesis by (simp add: is_json_add_meta)
qed

lemma toJsonSchema_strip:
  "toJsonSchema ps t d = strip_prefixed (JObj (add_meta (the_props (json_clone (JObj ps))) t d))"
  unfolding toJsonSchema_def by (rule cleanSchema_strip) (rule is_json_prepared)

lemma marker_free_toJsonSchema: "marker_free (toJsonSchema ps t d)"
  by (simp only: toJsonSchema_strip marker_free_strip)

lemma at_path_append:
  "at_path v (p @ q) = (case at_path v p of None \<Rightarrow> None | Some w \<Rightarrow> at_path w q)"
  by (induction v p rule: at_path.induct) (auto split: option.splits)

lemma marker_free_subtree: "marker_free v \<Longrightarrow> at_path v p = Some w \<Longrightarrow> marker_free w"
proof (induction v p rule: at_path.induct)
  case (2 kvs k p)
  then obtain u where u: "map_of kvs (Str k) = Some u" "at_path u p = Some w"
    by (auto split: option.splits)
  from u(1) have "(Str k, u) \<in> set kvs" by (rule map_of_SomeD)
  with "2.prems"(1) have "marker_free u" by (auto simp: list_all_iff)
  with "2.IH"[OF u(1)] u(2) show ?case by simp
next
  case (3 vs i p)
  then have i: "i < length vs" "at_path (vs ! i) p = Some w" by (auto split: if_splits)
  with "3.prems"(1) have "marker_free (vs ! i)" by (auto simp: list_all_iff)
  with "3.IH"[OF i(1)] i(2) show ?case by simp
qed auto

lemma marker_free_no_key: "marker_free w \<Longrightarrow> is_marker (Str k) \<Longrightarrow> at_path w [Key k] = None"
proof (cases w)
  case (JObj kvs)
  assume mf: "marker_free w" and mk: "is_marker (Str k)"
  have "map_of kvs (Str k) = None"
  proof (rule ccontr)
    assume "map_of kvs (Str k) \<noteq> None"
    then obtain v where "(Str k, v) \<in> set kvs" by (auto dest: map_of_SomeD)
    with mf mk JObj show False by (auto simp: list_all_iff)
  qed
  with JObj show ?thesis by simp
qed auto

lemma marker_free_at_path:
  "marker_free v \<Longrightarrow> is_marker (Str k) \<Longrightarrow> at_path v (p @ [Key k]) = None"
proof (cases "at_path v p")
  case None
  then show ?thesis by (simp add: at_path_append)
next
  case (Some w)
  assume "marker_free v" and mk: "is_marker (Str k)"
  with Some have "marker_free w" by (blast intro: marker_free_subtree)
  then have "at_path w [Key k] = None" using mk by (rule marker_free_no_key)
  with Some show ?thesis by (simp add: at_path_append)
qed

text \<open>
  Claim C4. A key that begins with \<^verbatim>\<open>[Symbol\<close> is absent from the normalized document at
  every path: below any sequence of object keys and array indices, looking the key up finds
  nothing. So a marker key of the definition, at whatever depth it stands, inside nested
  objects or inside objects that are array items, is not in the output at that path.
\<close>

theorem marker_keys_absent:
  "is_marker (Str k) \<Longrightarrow>
   at_path (toJsonSchema schema title description) (p @ [Key k]) = None"
  by (rule marker_free_at_path [OF marker_free_toJsonSchema])

theorem marker_keys_absent_witness:
  "is_marker (Str ''[Symbol.for(TypeBox.Kind)]'') \<and>
   at_path (JObj [(Str ''anyOf'', JArr [JObj [(Str ''[Symbol.for(TypeBox.Kind)]'', JStr ''x'')]])])
     ([Key ''anyOf'', Index 0] @ [Key ''[Symbol.for(TypeBox.Kind)]'']) = Some (JStr ''x'') \<and>
   at_path (toJsonSchema [(Str ''anyOf'', JArr [JObj [(Str ''[Symbol.for(TypeBox.Kind)]'', JStr ''x'')]])] ''T'' ''D'')
     ([Key ''anyOf'', Index 0] @ [Key ''[Symbol.for(TypeBox.Kind)]'']) = None"
  using marker_keys_absent [of "''[Symbol.for(TypeBox.Kind)]''"
      "[(Str ''anyOf'', JArr [JObj [(Str ''[Symbol.for(TypeBox.Kind)]'', JStr ''x'')]])]"
      "''T''" "''D''" "[Key ''anyOf'', Index 0]"]
  by (simp add: startsWith_def)


lemma root_get_cleanSchema:
  "\<not> is_marker (Str k) \<Longrightarrow> \<not> is_object (get_prop ps k) \<Longrightarrow>
   root_get (cleanSchema (JObj ps)) k = get_prop ps k"
proof -
  assume nm: "\<not> is_marker (Str k)" and no: "\<not> is_object (get_prop ps k)"
  let ?f = "\<lambda>(k, v). (k,
              if enumerable k then
                (case v of
                   JArr items \<Rightarrow> JArr (map (\<lambda>i. if is_object i then cleanSchema i else i) items)
                 | JObj ps \<Rightarrow> cleanSchema v
                 | _ \<Rightarrow> v)
              else v)"
  from nm no have "map_of (map ?f (filter (\<lambda>(k, v). \<not> is_marker k) ps)) (Str k) = map_of ps (Str k)"
  proof (induction ps)
    case Nil
    then show ?case by simp
  next
    case (Cons kv ps)
    obtain k' v' where kv: "kv = (k', v')" by (cases kv)
    show ?case
    proof (cases "k' = Str k")
      case True
      with Cons.prems kv have "\<not> is_object v'" by (simp add: get_prop_def)
      with True kv Cons.prems(1) show ?thesis by (cases v') auto
    next
      case False
      with Cons.prems kv have "\<not> is_object (get_prop ps k)" by (simp add: get_prop_def)
      with Cons.IH Cons.prems(1) False kv show ?thesis by auto
    qed
  qed
  then show ?thesis by (simp add: root_get_def get_prop_def)
qed

lemma get_prop_clone_absent:
  "map_of ps (Str k) = None \<Longrightarrow> get_prop (the_props (json_clone (JObj ps))) k = JUndefined"
proof -
  assume "map_of ps (Str k) = None"
  then have "map_of (map (\<lambda>(k, v). (k, json_clone v))
            (filter (\<lambda>(k, v). enumerable k \<and> v \<noteq> JUndefined) ps)) (Str k) = None"
    by (induction ps) (auto split: if_splits)
  then show ?thesis by (simp add: get_prop_def)
qed

lemma get_prop_clone_prim:
  "get_prop ps k = v \<Longrightarrow> v \<noteq> JUndefined \<Longrightarrow> \<not> is_object v \<Longrightarrow>
   get_prop (the_props (json_clone (JObj ps))) k = v"
proof -
  assume g: "get_prop ps k = v" and v: "v \<noteq> JUndefined" "\<not> is_object v"
  then have "map_of (map (\<lambda>(k, v). (k, json_clone v))
            (filter (\<lambda>(k, v). enumerable k \<and> v \<noteq> JUndefined) ps)) (Str k) = Some v"
  proof (induction ps)
    case Nil
    then show ?case by (simp add: get_prop_def)
  next
    case (Cons kv ps)
    obtain k' v' where kv: "kv = (k', v')" by (cases kv)
    show ?case
    proof (cases "k' = Str k")
      case True
      with Cons.prems kv have "v' = v" by (simp add: get_prop_def)
      with True kv Cons.prems show ?thesis by (cases v) auto
    next
      case False
      with Cons.prems kv have "get_prop ps k = v" by (simp add: get_prop_def)
      with Cons.IH Cons.prems False kv show ?thesis by auto
    qed
  qed
  then show ?thesis by (simp add: get_prop_def)
qed


lemma get_add_meta_title:
  "get_prop (add_meta c t d) ''title'' =
     (if truthy (get_prop c ''title'') then get_prop c ''title'' else JStr t)"
  by (simp add: add_meta_def Let_def get_set_prop)

lemma get_add_meta_description:
  "get_prop (add_meta c t d) ''description'' =
     (if truthy (get_prop c ''description'') then get_prop c ''description'' else JStr d)"
  by (simp add: add_meta_def Let_def get_set_prop)

lemma get_add_meta_schema: "get_prop (add_meta c t d) ''$schema'' = JStr draft07"
  by (simp add: add_meta_def Let_def get_set_prop)

lemma get_add_meta_other:
  "k \<noteq> ''$schema'' \<Longrightarrow> k \<noteq> ''title'' \<Longrightarrow> k \<noteq> ''description'' \<Longrightarrow>
   get_prop (add_meta c t d) k = get_prop c k"
  by (simp add: add_meta_def Let_def get_set_prop)

lemma root_get_toJsonSchema:
  "\<not> is_marker (Str k) \<Longrightarrow>
   \<not> is_object (get_prop (add_meta (the_props (json_clone (JObj ps))) t d) k) \<Longrightarrow>
   root_get (toJsonSchema ps t d) k = get_prop (add_meta (the_props (json_clone (JObj ps))) t d) k"
  unfolding toJsonSchema_def by (rule root_get_cleanSchema)


lemma title_kept:
  assumes "truthy (get_prop (the_props (json_clone (JObj ps))) ''title'')"
    and "\<not> is_object (get_prop (the_props (json_clone (JObj ps))) ''title'')"
  shows "root_get (toJsonSchema ps t d) ''title'' =
         get_prop (the_props (json_clone (JObj ps))) ''title''"
proof -
  let ?c = "the_props (json_clone (JObj ps))"
  have nm: "\<not> is_marker (Str ''title'')" by (simp add: startsWith_def)
  from assms(1) have g: "get_prop (add_meta ?c t d) ''title'' = get_prop ?c ''title''"
    by (simp only: get_add_meta_title if_True)
  have "\<not> is_object (get_prop (add_meta ?c t d) ''title'')"
    unfolding g by (rule assms(2))
  from root_get_toJsonSchema[OF nm this] show ?thesis by (simp only: g)
qed


lemma description_kept:
  assumes "truthy (get_prop (the_props (json_clone (JObj ps))) ''description'')"
    and "\<not> is_object (get_prop (the_props (json_clone (JObj ps))) ''description'')"
  shows "root_get (toJsonSchema ps t d) ''description'' =
         get_prop (the_props (json_clone (JObj ps))) ''description''"
proof -
  let ?c = "the_props (json_clone (JObj ps))"
  have nm: "\<not> is_marker (Str ''description'')" by (simp add: startsWith_def)
  from assms(1) have g: "get_prop (add_meta ?c t d) ''description'' = get_prop ?c ''description''"
    by (simp only: get_add_meta_description if_True)
  have "\<not> is_object (get_prop (add_meta ?c t d) ''description'')"
    unfolding g by (rule assms(2))
  from root_get_toJsonSchema[OF nm this] show ?thesis by (simp only: g)
qed


lemma clone_truthy_prim:
  assumes "truthy (get_prop ps k)" and "\<not> is_object (get_prop ps k)"
  shows "get_prop (the_props (json_clone (JObj ps))) k = get_prop ps k"
  using assms by (intro get_prop_clone_prim) auto




text \<open>
  Claim C10. The clone of line 365 leaves string keys only and no \<^verbatim>\<open>undefined\<close>, and on
  such a tree the in-place cleaning is the stripping of the specification: the output is the
  cloned definition, with the three root fields set, from which exactly the properties
  whose string key begins with \<^verbatim>\<open>[Symbol\<close> are removed, at every depth, whatever they hold.
\<close>

theorem cleanSchema_strips_exactly_prefixed:
  "is_json (json_clone (JObj schema)) \<and>
   toJsonSchema schema title description =
     strip_prefixed (JObj (add_meta (the_props (json_clone (JObj schema))) title description))"
  using is_json_object_clone toJsonSchema_strip by blast
section \<open>Properties of the driver and the writer\<close>






lemma writeSchema_cases:
  "writeSchema d f s w = (w', e) \<Longrightarrow>
     (e \<noteq> None \<and> w' = w) \<or>
     (e = None \<and> w' = w\<lparr>files := (files w)(schemasDir d @ [f] \<mapsto> schema_text s),
                          console := console w @ [report (schemasDir d @ [f])]\<rparr>)"
  by (auto simp: writeSchema_def writeFileSync_def console_log_def report_def Let_def
      split: if_splits)




lemma writeFileSync_ok:
  "can_write p w \<Longrightarrow> writeFileSync p data w = (w\<lparr>files := (files w)(p \<mapsto> data)\<rparr>, None)"
  by (auto simp: writeFileSync_def can_write_def)

lemma writeFileSync_fail:
  "\<not> can_write p w \<Longrightarrow> \<exists>e. writeFileSync p data w = (w, Some e)"
  by (auto simp: writeFileSync_def can_write_def)

lemma writeSchema_ok:
  "can_write (schemasDir d @ [f]) w \<Longrightarrow>
   writeSchema d f s w =
     (w\<lparr>files := (files w)(schemasDir d @ [f] \<mapsto> schema_text s),
        console := console w @ [report (schemasDir d @ [f])]\<rparr>, None)"
  by (simp add: writeSchema_def writeFileSync_ok console_log_def report_def Let_def)

lemma writeSchema_fail:
  "\<not> can_write (schemasDir d @ [f]) w \<Longrightarrow> \<exists>e. writeSchema d f s w = (w, Some e)"
  using writeFileSync_fail[of "schemasDir d @ [f]" w "schema_text s"]
  by (auto simp: writeSchema_def Let_def)

lemma mkdir_from_ok:
  assumes "\<forall>q. q \<noteq> [] \<and> prefix q cs \<longrightarrow> files w (cur @ q) = None"
    and "\<forall>q. q \<noteq> [] \<and> prefix q cs \<longrightarrow> cur @ q \<in> dirs w \<or> cur @ butlast q \<notin> readonly w"
  shows "\<exists>w'. mkdir_from cur cs w = (w', None) \<and>
           dirs w' = dirs w \<union> {cur @ q | q. q \<noteq> [] \<and> prefix q cs} \<and>
           files w' = files w \<and> readonly w' = readonly w \<and> console w' = console w"
  using assms
proof (induction cs arbitrary: cur w)
  case Nil
  then show ?case by auto
next
  case (Cons c cs)
  let ?p = "cur @ [c]"
  from Cons.prems(1)[rule_format, of "[c]"] have nf: "files w ?p = None" by simp
  from Cons.prems(2)[rule_format, of "[c]"] have ro: "?p \<in> dirs w \<or> cur \<notin> readonly w" by simp
  define w1 where "w1 = (if ?p \<in> dirs w then w else w\<lparr>dirs := insert ?p (dirs w)\<rparr>)"
  have step: "mkdir_from cur (c # cs) w = mkdir_from ?p cs w1"
    using nf ro by (auto simp: w1_def Let_def)
  have w1: "files w1 = files w" "readonly w1 = readonly w" "console w1 = console w"
    "dirs w1 = insert ?p (dirs w)"
    by (auto simp: w1_def)
  have a1: "\<forall>q. q \<noteq> [] \<and> prefix q cs \<longrightarrow> files w1 (?p @ q) = None"
    using Cons.prems(1) w1 by (auto simp: prefix_Cons)
  have a2: "\<forall>q. q \<noteq> [] \<and> prefix q cs \<longrightarrow> ?p @ q \<in> dirs w1 \<or> ?p @ butlast q \<notin> readonly w1"
  proof (intro allI impI)
    fix q assume q: "q \<noteq> [] \<and> prefix q cs"
    with Cons.prems(2)[rule_format, of "c # q"] have "cur @ c # q \<in> dirs w \<or> cur @ butlast (c # q) \<notin> readonly w"
      by simp
    with q w1 show "?p @ q \<in> dirs w1 \<or> ?p @ butlast q \<notin> readonly w1" by auto
  qed
  from Cons.IH[OF a1 a2] obtain w' where w': "mkdir_from ?p cs w1 = (w', None)"
    "dirs w' = dirs w1 \<union> {?p @ q | q. q \<noteq> [] \<and> prefix q cs}"
    "files w' = files w1" "readonly w' = readonly w1" "console w' = console w1"
    by blast
  have "dirs w1 \<union> {?p @ q | q. q \<noteq> [] \<and> prefix q cs} =
        dirs w \<union> {cur @ q | q. q \<noteq> [] \<and> prefix q (c # cs)}"
  proof -
    have "{cur @ q | q. q \<noteq> [] \<and> prefix q (c # cs)} = insert ?p {?p @ q | q. q \<noteq> [] \<and> prefix q cs}"
    proof (intro set_eqI iffI)
      fix x assume "x \<in> {cur @ q | q. q \<noteq> [] \<and> prefix q (c # cs)}"
      then obtain q where q: "x = cur @ q" "q \<noteq> []" "prefix q (c # cs)" by blast
      then obtain q' where q': "q = c # q'" "prefix q' cs" by (auto simp: prefix_Cons)
      with q show "x \<in> insert ?p {?p @ q | q. q \<noteq> [] \<and> prefix q cs}" by (cases "q' = []") auto
    next
      fix x assume "x \<in> insert ?p {?p @ q | q. q \<noteq> [] \<and> prefix q cs}"
      then consider "x = ?p" | q where "x = ?p @ q" "q \<noteq> []" "prefix q cs" by blast
      then show "x \<in> {cur @ q | q. q \<noteq> [] \<and> prefix q (c # cs)}"
      proof cases
        case 1
        have "x = cur @ [c] \<and> [c] \<noteq> [] \<and> prefix [c] (c # cs)" using 1 by simp
        then show ?thesis by blast
      next
        case 2
        then have "x = cur @ (c # q) \<and> c # q \<noteq> [] \<and> prefix (c # q) (c # cs)" by simp
        then show ?thesis by blast
      qed
    qed
    with w1 show ?thesis by auto
  qed
  with w' w1 step show ?case by auto
qed

lemma mkdir_from_post:
  "mkdir_from cur cs w = (w', None) \<Longrightarrow>
   (\<forall>q. q \<noteq> [] \<and> prefix q cs \<longrightarrow> cur @ q \<in> dirs w' \<and> files w (cur @ q) = None) \<and>
   dirs w \<subseteq> dirs w' \<and> dirs w' \<subseteq> dirs w \<union> {cur @ q | q. q \<noteq> [] \<and> prefix q cs} \<and>
   files w' = files w \<and> readonly w' = readonly w \<and> console w' = console w"
proof (induction cur cs w arbitrary: w' rule: mkdir_from.induct)
  case (1 cur w)
  then show ?case by auto
next
  case (2 cur c cs w)
  let ?p = "cur @ [c]"
  from "2.prems" have nf: "files w ?p = None" by (auto simp: Let_def split: if_splits)
  define w1 where "w1 = (if ?p \<in> dirs w then w else w\<lparr>dirs := insert ?p (dirs w)\<rparr>)"
  have w1: "files w1 = files w" "readonly w1 = readonly w" "console w1 = console w"
    "dirs w1 = insert ?p (dirs w)"
    by (auto simp: w1_def)
  from "2.prems" nf have step: "mkdir_from ?p cs w1 = (w', None)"
    by (auto simp: w1_def Let_def split: if_splits)
  have ih: "(\<forall>q. q \<noteq> [] \<and> prefix q cs \<longrightarrow> ?p @ q \<in> dirs w' \<and> files w1 (?p @ q) = None) \<and>
   dirs w1 \<subseteq> dirs w' \<and> dirs w' \<subseteq> dirs w1 \<union> {?p @ q | q. q \<noteq> [] \<and> prefix q cs} \<and>
   files w' = files w1 \<and> readonly w' = readonly w1 \<and> console w' = console w1"
  proof (cases "?p \<in> dirs w")
    case True
    with nf step "2.IH"(1)[OF refl, of w'] show ?thesis by (simp add: w1_def)
  next
    case False
    from "2.prems" nf False have nr: "cur \<notin> readonly w" by (auto simp: Let_def split: if_splits)
    with nf False step "2.IH"(2)[OF refl, of w'] show ?thesis by (simp add: w1_def)
  qed
  have a: "\<forall>q. q \<noteq> [] \<and> prefix q (c # cs) \<longrightarrow> cur @ q \<in> dirs w' \<and> files w (cur @ q) = None"
  proof (intro allI impI)
    fix q assume "q \<noteq> [] \<and> prefix q (c # cs)"
    then obtain q' where q': "q = c # q'" "prefix q' cs" by (auto simp: prefix_Cons)
    show "cur @ q \<in> dirs w' \<and> files w (cur @ q) = None"
    proof (cases "q' = []")
      case True
      with q' ih w1 nf show ?thesis by auto
    next
      case False
      with q' ih w1 show ?thesis by auto
    qed
  qed
  have b: "dirs w' \<subseteq> dirs w \<union> {cur @ q | q. q \<noteq> [] \<and> prefix q (c # cs)}"
  proof
    fix x assume "x \<in> dirs w'"
    with ih w1 consider "x \<in> dirs w" | "x = ?p" | q where "x = ?p @ q" "q \<noteq> []" "prefix q cs"
      by auto
    then show "x \<in> dirs w \<union> {cur @ q | q. q \<noteq> [] \<and> prefix q (c # cs)}"
    proof cases
      case 1
      then show ?thesis by simp
    next
      case 2
      then have "x = cur @ [c] \<and> [c] \<noteq> [] \<and> prefix [c] (c # cs)" by simp
      then show ?thesis by blast
    next
      case 3
      then have "x = cur @ (c # q) \<and> c # q \<noteq> [] \<and> prefix (c # q) (c # cs)" by simp
      then show ?thesis by blast
    qed
  qed
  from a b ih w1 show ?case by auto
qed

lemma mkdir_from_existing:
  "\<forall>q. q \<noteq> [] \<and> prefix q cs \<longrightarrow> cur @ q \<in> dirs w \<and> files w (cur @ q) = None \<Longrightarrow>
   mkdir_from cur cs w = (w, None)"
proof (induction cs arbitrary: cur)
  case Nil
  then show ?case by simp
next
  case (Cons c cs)
  from Cons.prems[rule_format, of "[c]"] have p: "cur @ [c] \<in> dirs w" "files w (cur @ [c]) = None"
    by simp_all
  have "\<forall>q. q \<noteq> [] \<and> prefix q cs \<longrightarrow> (cur @ [c]) @ q \<in> dirs w \<and> files w ((cur @ [c]) @ q) = None"
  proof (intro allI impI)
    fix q assume "q \<noteq> [] \<and> prefix q cs"
    with Cons.prems[rule_format, of "c # q"]
    show "(cur @ [c]) @ q \<in> dirs w \<and> files w ((cur @ [c]) @ q) = None" by simp
  qed
  from Cons.IH[OF this] p show ?case by (simp add: Let_def)
qed



lemma can_write_after_write:
  "butlast p = butlast p' \<Longrightarrow> p \<noteq> [] \<Longrightarrow> p' \<noteq> [] \<Longrightarrow> p \<noteq> p' \<Longrightarrow>
   can_write p (w\<lparr>files := (files w)(p' \<mapsto> t), console := c\<rparr>) = can_write p w"
proof -
  assume a: "butlast p = butlast p'" "p \<noteq> []" "p' \<noteq> []" "p \<noteq> p'"
  have "butlast p \<noteq> p'"
  proof
    assume "butlast p = p'"
    with a(1) have "butlast p' = p'" by simp
    with a(3) show False by (cases p' rule: rev_cases) simp_all
  qed
  with a show ?thesis by (auto simp: can_write_def)
qed

lemma main_success:
  assumes m: "mkdirSync (schemasDir d) w = (w0, None)" and r: "ready d w0"
  shows "main d w = (finished d w0, None)"
proof -
  let ?sd = "schemasDir d"
  let ?p1 = "?sd @ [''settings.schema.json'']"
  let ?p2 = "?sd @ [''models.schema.json'']"
  let ?p3 = "?sd @ [''auth.schema.json'']"
  from r have c: "can_write ?p1 w0" "can_write ?p2 w0" "can_write ?p3 w0"
    by (simp_all add: ready_def outputs_def)
  let ?w1 = "w0\<lparr>files := (files w0)(?p1 \<mapsto> schema_text settings_document),
        console := console w0 @ [report ?p1]\<rparr>"
  let ?w2 = "?w1\<lparr>files := (files ?w1)(?p2 \<mapsto> schema_text models_document),
        console := console ?w1 @ [report ?p2]\<rparr>"
  let ?w3 = "?w2\<lparr>files := (files ?w2)(?p3 \<mapsto> schema_text auth_document),
        console := console ?w2 @ [report ?p3]\<rparr>"
  have s1: "writeSchema d ''settings.schema.json'' settings_document w0 = (?w1, None)"
    by (rule writeSchema_ok[OF c(1)])
  have c2: "can_write ?p2 ?w1"
    using c(2) by (subst can_write_after_write) simp_all
  have s2: "writeSchema d ''models.schema.json'' models_document ?w1 = (?w2, None)"
    by (rule writeSchema_ok[OF c2])
  have c3: "can_write ?p3 ?w2"
    using c(3) by (simp add: can_write_def)
  have s3: "writeSchema d ''auth.schema.json'' auth_document ?w2 = (?w3, None)"
    by (rule writeSchema_ok[OF c3])
  have "main d w = (?w3\<lparr>console := console ?w3 @ closing_lines\<rparr>, None)"
    unfolding main_def by (simp only: m and_then_def prod.case option.case s1 s2 s3)
  also have "?w3\<lparr>console := console ?w3 @ closing_lines\<rparr> = finished d w0"
    by (simp add: finished_def store_all_def outputs_def)
  finally show ?thesis .
qed

lemma main_success_conv:
  assumes "snd (main d w) = None"
  shows "\<exists>w0. mkdirSync (schemasDir d) w = (w0, None) \<and> ready d w0"
proof -
  let ?sd = "schemasDir d"
  let ?p1 = "?sd @ [''settings.schema.json'']"
  let ?p2 = "?sd @ [''models.schema.json'']"
  let ?p3 = "?sd @ [''auth.schema.json'']"
  obtain w0 e0 where m: "mkdirSync ?sd w = (w0, e0)" by (cases "mkdirSync ?sd w")
  have e0: "e0 = None"
  proof (rule ccontr)
    assume "e0 \<noteq> None"
    with m have "snd (main d w) \<noteq> None" by (auto simp: main_def and_then_def)
    with assms show False by simp
  qed
  let ?w1 = "w0\<lparr>files := (files w0)(?p1 \<mapsto> schema_text settings_document),
        console := console w0 @ [report ?p1]\<rparr>"
  let ?w2 = "?w1\<lparr>files := (files ?w1)(?p2 \<mapsto> schema_text models_document),
        console := console ?w1 @ [report ?p2]\<rparr>"
  have c1: "can_write ?p1 w0"
  proof (rule ccontr)
    assume "\<not> can_write ?p1 w0"
    from writeSchema_fail[OF this, of settings_document] m e0
    have "snd (main d w) \<noteq> None" by (auto simp: main_def and_then_def)
    with assms show False by simp
  qed
  note s1 = writeSchema_ok[OF c1, of settings_document]
  have c2: "can_write ?p2 ?w1"
  proof (rule ccontr)
    assume "\<not> can_write ?p2 ?w1"
    from writeSchema_fail[OF this, of models_document] obtain e where
      "writeSchema d ''models.schema.json'' models_document ?w1 = (?w1, Some e)" by blast
    with m e0 s1 have "snd (main d w) \<noteq> None" by (simp add: main_def and_then_def)
    with assms show False by simp
  qed
  note s2 = writeSchema_ok[OF c2, of models_document]
  have c3: "can_write ?p3 ?w2"
  proof (rule ccontr)
    assume "\<not> can_write ?p3 ?w2"
    from writeSchema_fail[OF this, of auth_document] obtain e where
      "writeSchema d ''auth.schema.json'' auth_document ?w2 = (?w2, Some e)" by blast
    with m e0 s1 s2 have "snd (main d w) \<noteq> None" by (simp add: main_def and_then_def)
    with assms show False by simp
  qed
  from c2 have c2': "can_write ?p2 w0" by (subst (asm) can_write_after_write) simp_all
  from c3 have c3': "can_write ?p3 w0" by (simp add: can_write_def)
  from c1 c2' c3' have "ready d w0" by (simp add: ready_def outputs_def)
  with m e0 show ?thesis by blast
qed

lemma files_finished:
  "(p, t) \<in> set (outputs d) \<Longrightarrow> files (finished d w) p = Some t"
proof -
  assume "(p, t) \<in> set (outputs d)"
  then consider "p = schemasDir d @ [''settings.schema.json'']" "t = schema_text settings_document"
    | "p = schemasDir d @ [''models.schema.json'']" "t = schema_text models_document"
    | "p = schemasDir d @ [''auth.schema.json'']" "t = schema_text auth_document"
    by (auto simp: outputs_def)
  then show ?thesis
    by cases (simp_all add: finished_def store_all_def outputs_def)
qed

lemma not_prefix_snoc: "prefix q xs \<Longrightarrow> q \<noteq> xs @ [f]"
  by (auto dest: prefix_length_le)

lemma files_finished_other:
  "prefix q (schemasDir d) \<Longrightarrow> files (finished d w) q = files w q"
proof -
  assume "prefix q (schemasDir d)"
  then have "q \<noteq> schemasDir d @ [''settings.schema.json'']"
    "q \<noteq> schemasDir d @ [''models.schema.json'']"
    "q \<noteq> schemasDir d @ [''auth.schema.json'']"
    by (simp_all add: not_prefix_snoc)
  then show ?thesis by (simp add: finished_def store_all_def outputs_def)
qed

lemma rerun:
  assumes "snd (main d w) = None"
  shows "main d (fst (main d w)) = (finished d (fst (main d w)), None) \<and>
         files (finished d (fst (main d w))) = files (fst (main d w))"
proof -
  let ?sd = "schemasDir d"
  from main_success_conv[OF assms] obtain w0 where
    m: "mkdirSync ?sd w = (w0, None)" and r: "ready d w0" by blast
  from main_success[OF m r] have w': "fst (main d w) = finished d w0" by simp
  let ?w' = "finished d w0"
  from m have post: "\<forall>q. q \<noteq> [] \<and> prefix q ?sd \<longrightarrow> q \<in> dirs w0 \<and> files w q = None"
     and fw0: "files w0 = files w"
    using mkdir_from_post[of "[]" ?sd w w0] by (simp_all add: mkdirSync_def)
  have d': "dirs ?w' = dirs w0" "readonly ?w' = readonly w0" by (simp_all add: finished_def)
  have "\<forall>q. q \<noteq> [] \<and> prefix q ?sd \<longrightarrow> [] @ q \<in> dirs ?w' \<and> files ?w' ([] @ q) = None"
    using post fw0 by (simp add: d' files_finished_other)
  from mkdir_from_existing[OF this] have m': "mkdirSync ?sd ?w' = (?w', None)"
    by (simp add: mkdirSync_def)
  have sdnone: "files ?w' ?sd = None"
    using post[rule_format, of ?sd] fw0 by (simp add: files_finished_other schemasDir_def)
  have r': "ready d ?w'"
    unfolding ready_def list_all_iff
  proof (intro ballI)
    fix x assume x: "x \<in> set (outputs d)"
    obtain p t where pt: "x = (p, t)" by (cases x)
    with x r have c: "can_write p w0" by (auto simp: ready_def list_all_iff)
    from x pt have b: "butlast p = ?sd" by (auto simp: outputs_def)
    from x pt have "files ?w' p = Some t" by (simp add: files_finished)
    with c b sdnone have "can_write p ?w'" by (simp add: can_write_def d')
    with pt show "case x of (p, t) \<Rightarrow> can_write p ?w'" by simp
  qed
  have idem: "files (finished d ?w') = files ?w'"
    by (rule ext) (simp add: finished_def store_all_def outputs_def)
  from main_success[OF m' r'] idem w' show ?thesis by simp
qed

lemma main_creates_and_writes:
  assumes nf: "\<forall>q. q \<noteq> [] \<and> prefix q (schemasDir d) \<longrightarrow> files w q = None"
    and ro: "readonly w = {}"
    and nd: "\<forall>(p, t) \<in> set (outputs d). p \<notin> dirs w"
  shows "snd (main d w) = None \<and>
         (\<forall>q. q \<noteq> [] \<and> prefix q (schemasDir d) \<longrightarrow> q \<in> dirs (fst (main d w))) \<and>
         (\<forall>(p, t) \<in> set (outputs d). files (fst (main d w)) p = Some t)"
proof -
  let ?sd = "schemasDir d"
  have a1: "\<forall>q. q \<noteq> [] \<and> prefix q ?sd \<longrightarrow> files w ([] @ q) = None" using nf by simp
  have a2: "\<forall>q. q \<noteq> [] \<and> prefix q ?sd \<longrightarrow> [] @ q \<in> dirs w \<or> [] @ butlast q \<notin> readonly w"
    using ro by simp
  from mkdir_from_ok[OF a1 a2] obtain w0 where
    m: "mkdirSync ?sd w = (w0, None)" and
    d0: "dirs w0 = dirs w \<union> {q. q \<noteq> [] \<and> prefix q ?sd}" and
    f0: "files w0 = files w" and r0: "readonly w0 = readonly w"
    by (auto simp: mkdirSync_def)
  have sd: "?sd \<noteq> []" by (simp add: schemasDir_def)
  have r: "ready d w0"
    unfolding ready_def list_all_iff
  proof (intro ballI)
    fix x assume x: "x \<in> set (outputs d)"
    obtain p t where pt: "x = (p, t)" by (cases x)
    from x pt obtain f where p: "p = ?sd @ [f]" by (auto simp: outputs_def)
    from nd x pt have "p \<notin> dirs w" by auto
    moreover have "\<not> prefix p ?sd" using p by (auto dest: not_prefix_snoc)
    ultimately have 1: "p \<notin> dirs w0" by (simp add: d0)
    from nf sd have 2: "files w0 (butlast p) = None" by (simp add: p f0)
    from sd have 3: "butlast p \<in> dirs w0" by (simp add: p d0)
    from 1 2 3 ro r0 p have "can_write p w0" by (simp add: can_write_def)
    with pt show "case x of (p, t) \<Rightarrow> can_write p w0" by simp
  qed
  from main_success[OF m r] have e: "main d w = (finished d w0, None)" .
  have "dirs (finished d w0) = dirs w0" by (simp add: finished_def)
  with e d0 show ?thesis by (auto simp: files_finished)
qed






section \<open>The written text and the root fields\<close>






lemma indented_nl_ind: "indented ind (ind @ b) \<Longrightarrow> indented ind (nl # ind @ b)"
  by simp

















lemma root_get_schema: "root_get (toJsonSchema S t d) ''$schema'' = JStr draft07"
proof -
  have nm: "\<not> is_marker (Str ''$schema'')" by (simp add: startsWith_def)
  have "\<not> is_object (get_prop (add_meta (the_props (json_clone (JObj S))) t d) ''$schema'')"
    by (simp only: get_add_meta_schema is_object.simps not_False_eq_True)
  from root_get_toJsonSchema[OF nm this] show ?thesis by (simp only: get_add_meta_schema)
qed




lemma map_of_spread_other: "k \<notin> fst ` set b \<Longrightarrow> map_of (spread a b) k = map_of a k"
  unfolding spread_def
proof (induction b arbitrary: a)
  case Nil
  then show ?case by simp
next
  case (Cons x b)
  obtain k' v' where x: "x = (k', v')" by (cases x)
  from Cons.prems x have "k \<noteq> k'" "k \<notin> fst ` set b" by auto
  with Cons.IH[of "AList.update k' v' a"] x show ?case by (simp add: update_conv')
qed

lemma get_prop_Type_Object:
  "k \<noteq> ''type'' \<Longrightarrow> k \<noteq> ''required'' \<Longrightarrow> k \<noteq> ''properties'' \<Longrightarrow>
   get_prop (Type_Object ps opts) k = get_prop opts k"
  by (simp add: Type_Object_def CreateType_def Let_def get_prop_def map_of_spread_other Kind_def)


lemma root_get_toJsonSchema_prim:
  assumes "get_prop S k = v" and "v \<noteq> JUndefined" and "\<not> is_object v"
    and "k \<noteq> ''$schema''" and "k \<noteq> ''title''" and "k \<noteq> ''description''"
    and "\<not> is_marker (Str k)"
  shows "root_get (toJsonSchema S t d) k = v"
proof -
  from get_prop_clone_prim[OF assms(1,2,3)]
  have c: "get_prop (the_props (json_clone (JObj S))) k = v" .
  from get_add_meta_other[OF assms(4,5,6)] c
  have g: "get_prop (add_meta (the_props (json_clone (JObj S))) t d) k = v" by simp
  have "\<not> is_object (get_prop (add_meta (the_props (json_clone (JObj S))) t d) k)"
    unfolding g by (rule assms(3))
  from root_get_toJsonSchema[OF assms(7) this] g show ?thesis by simp
qed

lemma root_get_toJsonSchema_absent:
  assumes "map_of S (Str k) = None"
    and "k \<noteq> ''$schema''" and "k \<noteq> ''title''" and "k \<noteq> ''description''"
    and "\<not> is_marker (Str k)"
  shows "root_get (toJsonSchema S t d) k = JUndefined"
proof -
  from get_prop_clone_absent[OF assms(1)]
  have c: "get_prop (the_props (json_clone (JObj S))) k = JUndefined" .
  from get_add_meta_other[OF assms(2,3,4)] c
  have g: "get_prop (add_meta (the_props (json_clone (JObj S))) t d) k = JUndefined" by simp
  have "\<not> is_object (get_prop (add_meta (the_props (json_clone (JObj S))) t d) k)"
    unfolding g by simp
  from root_get_toJsonSchema[OF assms(5) this] g show ?thesis by simp
qed

lemma root_get_title_set:
  assumes "get_prop S ''title'' = JStr s" and "s \<noteq> []"
  shows "root_get (toJsonSchema S t d) ''title'' = JStr s"
proof -
  from assms have a: "truthy (get_prop S ''title'')" "\<not> is_object (get_prop S ''title'')" by simp_all
  from clone_truthy_prim[OF a] have e: "get_prop (the_props (json_clone (JObj S))) ''title'' = JStr s"
    by (simp only: assms(1))
  have "truthy (get_prop (the_props (json_clone (JObj S))) ''title'')"
    "\<not> is_object (get_prop (the_props (json_clone (JObj S))) ''title'')"
    unfolding e using assms(2) by simp_all
  from title_kept[OF this] e show ?thesis by simp
qed

lemma root_get_description_set:
  assumes "get_prop S ''description'' = JStr s" and "s \<noteq> []"
  shows "root_get (toJsonSchema S t d) ''description'' = JStr s"
proof -
  from assms have a: "truthy (get_prop S ''description'')" "\<not> is_object (get_prop S ''description'')"
    by simp_all
  from clone_truthy_prim[OF a]
  have e: "get_prop (the_props (json_clone (JObj S))) ''description'' = JStr s"
    by (simp only: assms(1))
  have "truthy (get_prop (the_props (json_clone (JObj S))) ''description'')"
    "\<not> is_object (get_prop (the_props (json_clone (JObj S))) ''description'')"
    unfolding e using assms(2) by simp_all
  from description_kept[OF this] e show ?thesis by simp
qed

lemma settings_options:
  "get_prop SettingsSchema ''$id'' = JStr ''https://buildwithpi.ai/schemas/settings.schema.json''"
  "get_prop SettingsSchema ''title'' = JStr ''Pi Coding Agent Settings''"
  "get_prop SettingsSchema ''description'' =
     JStr ''Configuration file for pi coding agent (~/.pi/agent/settings.json or .pi/settings.json)''"
  "get_prop SettingsSchema ''additionalProperties'' = JBool False"
  unfolding SettingsSchema_def
  by (subst get_prop_Type_Object, simp, simp, simp, simp add: get_prop_def)+

lemma settings_root:
  "root_get settings_document ''$schema'' = JStr ''http://json-schema.org/draft-07/schema#''"
  "root_get settings_document ''$id'' = JStr ''https://buildwithpi.ai/schemas/settings.schema.json''"
  "root_get settings_document ''title'' = JStr ''Pi Coding Agent Settings''"
  "root_get settings_document ''description'' =
     JStr ''Configuration file for pi coding agent (~/.pi/agent/settings.json or .pi/settings.json)''"
  "root_get settings_document ''additionalProperties'' = JBool False"
proof -
  show "root_get settings_document ''$schema'' = JStr ''http://json-schema.org/draft-07/schema#''"
    unfolding settings_document_def by (simp only: root_get_schema draft07_def)
  show "root_get settings_document ''$id'' = JStr ''https://buildwithpi.ai/schemas/settings.schema.json''"
    unfolding settings_document_def
    by (rule root_get_toJsonSchema_prim[OF settings_options(1)]) (simp_all add: startsWith_def)
  show "root_get settings_document ''title'' = JStr ''Pi Coding Agent Settings''"
    unfolding settings_document_def
    by (rule root_get_title_set[OF settings_options(2)]) simp
  show "root_get settings_document ''description'' =
     JStr ''Configuration file for pi coding agent (~/.pi/agent/settings.json or .pi/settings.json)''"
    unfolding settings_document_def
    by (rule root_get_description_set[OF settings_options(3)]) simp
  show "root_get settings_document ''additionalProperties'' = JBool False"
    unfolding settings_document_def
    by (rule root_get_toJsonSchema_prim[OF settings_options(4)]) (simp_all add: startsWith_def)
qed






lemma settings_no_required: "map_of SettingsSchema (Str ''required'') = None"
  by code_simp

lemma settings_required_absent: "root_get settings_document ''required'' = JUndefined"
  unfolding settings_document_def
  by (rule root_get_toJsonSchema_absent[OF settings_no_required]) (simp_all add: startsWith_def)

lemma settings_compaction:
  "at_path settings_document [Key ''properties'', Key ''compaction''] =
     Some (JObj
       [(Str ''additionalProperties'', JBool False),
        (Str ''type'', JStr ''object''),
        (Str ''properties'', JObj
           [(Str ''enabled'', JObj
               [(Str ''description'', JStr ''Enable automatic context compaction (default: true)''),
                (Str ''type'', JStr ''boolean'')]),
            (Str ''reserveTokens'', JObj
               [(Str ''description'', JStr ''Tokens reserved for prompt + LLM response (default: 16384)''),
                (Str ''type'', JStr ''number'')]),
            (Str ''keepRecentTokens'', JObj
               [(Str ''description'', JStr ''Tokens to keep from recent messages (default: 20000)''),
                (Str ''type'', JStr ''number'')])])])"
  by code_simp

text \<open>
  Claim C6. The settings document declares \<^verbatim>\<open>additionalProperties: false\<close> at its root;
  it has no \<^verbatim>\<open>required\<close> list, and its property \<^verbatim>\<open>compaction\<close> is a closed object with a
  boolean \<^verbatim>\<open>enabled\<close> and numeric \<^verbatim>\<open>reserveTokens\<close> and \<^verbatim>\<open>keepRecentTokens\<close>, none of them
  required; its \<^verbatim>\<open>$id\<close> is the settings schema URI.
\<close>

theorem settings_document_shape:
  "root_get settings_document ''additionalProperties'' = JBool False \<and>
   root_get settings_document ''required'' = JUndefined \<and>
   at_path settings_document [Key ''properties'', Key ''compaction''] =
     Some (JObj
       [(Str ''additionalProperties'', JBool False),
        (Str ''type'', JStr ''object''),
        (Str ''properties'', JObj
           [(Str ''enabled'', JObj
               [(Str ''description'', JStr ''Enable automatic context compaction (default: true)''),
                (Str ''type'', JStr ''boolean'')]),
            (Str ''reserveTokens'', JObj
               [(Str ''description'', JStr ''Tokens reserved for prompt + LLM response (default: 16384)''),
                (Str ''type'', JStr ''number'')]),
            (Str ''keepRecentTokens'', JObj
               [(Str ''description'', JStr ''Tokens to keep from recent messages (default: 20000)''),
                (Str ''type'', JStr ''number'')])])]) \<and>
   root_get settings_document ''$id'' = JStr ''https://buildwithpi.ai/schemas/settings.schema.json''"
  using settings_root(2,5) settings_required_absent settings_compaction by blast


section \<open>The auth scenario\<close>

lemma auth_document_value:
  "auth_document =
   JObj
    [(Str ''$id'', JStr ''https://buildwithpi.ai/schemas/auth.schema.json''),
     (Str ''title'', JStr ''Pi Coding Agent Auth Storage''),
     (Str ''description'',
      JStr ''Credential storage for API keys and OAuth tokens (~/.pi/agent/auth.json)''),
     (Str ''type'', JStr ''object''),
     (Str ''patternProperties'',
      JObj
       [(Str ''^(.*)$'',
         JObj
          [(Str ''description'', JStr ''Credential entry (API key or OAuth tokens)''),
           (Str ''anyOf'',
            JArr
             [JObj
               [(Str ''additionalProperties'', JBool False),
                (Str ''type'', JStr ''object''),
                (Str ''required'', JArr [JStr ''type'', JStr ''key'']),
                (Str ''properties'',
                 JObj
                  [(Str ''type'',
                    JObj [(Str ''const'', JStr ''api_key''), (Str ''type'', JStr ''string'')]),
                   (Str ''key'',
                    JObj
                     [(Str ''description'', JStr ''The API key value''),
                      (Str ''type'', JStr ''string'')])])],
              JObj
               [(Str ''additionalProperties'', JBool True),
                (Str ''description'',
                 JStr ''OAuth credentials (may include provider-specific fields)''),
                (Str ''type'', JStr ''object''),
                (Str ''required'',
                 JArr [JStr ''type'', JStr ''access'', JStr ''refresh'', JStr ''expires'']),
                (Str ''properties'',
                 JObj
                  [(Str ''type'',
                    JObj [(Str ''const'', JStr ''oauth''), (Str ''type'', JStr ''string'')]),
                   (Str ''access'',
                    JObj
                     [(Str ''description'', JStr ''OAuth access token''),
                      (Str ''type'', JStr ''string'')]),
                   (Str ''refresh'',
                    JObj
                     [(Str ''description'', JStr ''OAuth refresh token''),
                      (Str ''type'', JStr ''string'')]),
                   (Str ''expires'',
                    JObj
                     [(Str ''description'', JStr ''Token expiration timestamp (ms since epoch)''),
                      (Str ''type'', JStr ''number'')]),
                   (Str ''accountId'',
                    JObj
                     [(Str ''description'', JStr ''Account ID (provider-specific)''),
                      (Str ''type'', JStr ''string'')])])]])])]),
     (Str ''$schema'', JStr ''http://json-schema.org/draft-07/schema#'')]"
  by code_simp

lemma auth_validation:
  assumes "rx ''^(.*)$'' ''work''"
  shows "valid rx auth_document work_api_key"
    and "\<not> valid rx auth_document work_missing_key"
    and "only_known_keywords auth_document"
  unfolding auth_document_value work_api_key_def work_missing_key_def
  using assms
  by (simp_all add: object_keyword_def array_keyword_def known_keywords_def)

text \<open>
  Claim C7. Under Draft 07 validation, with any regular expression test for which the
  pattern \<^verbatim>\<open>^(.*)$\<close> matches the key \<^verbatim>\<open>work\<close>, the document
  \<^verbatim>\<open>{"work": {"type": "api_key", "key": "sk-1"}}\<close> is valid against the auth document and
  \<^verbatim>\<open>{"work": {"type": "api_key"}}\<close> is not; the auth document uses no validation keyword
  outside the modelled ones.
\<close>

theorem auth_scenario_validation:
  assumes "rx ''^(.*)$'' ''work''"
  shows "valid rx auth_document work_api_key \<and> \<not> valid rx auth_document work_missing_key \<and>
         only_known_keywords auth_document"
  using auth_validation[of rx, OF assms] by blast

theorem auth_scenario_validation_witness:
  "line_pattern_test ''^(.*)$'' ''work'' \<and>
   valid line_pattern_test auth_document work_api_key \<and>
   \<not> valid line_pattern_test auth_document work_missing_key \<and>
   only_known_keywords auth_document"
proof -
  have h: "line_pattern_test ''^(.*)$'' ''work''" by (simp add: line_pattern_test_def)
  from auth_scenario_validation[of line_pattern_test, OF h] h show ?thesis by blast
qed

section \<open>The normalizer on the store\<close>


lemma holds_le:
  shows "holds h lo hi v t \<Longrightarrow> lo \<le> hi"
    and "holds_list h lo hi vs ts \<Longrightarrow> lo \<le> hi"
  by (induction rule: holds_holds_list.inducts) auto

lemma holds_mono_aux:
  shows "holds h lo hi v t \<Longrightarrow> (\<forall>lo' hi'. lo' \<le> lo \<longrightarrow> hi \<le> hi' \<longrightarrow> holds h lo' hi' v t)"
    and "holds_list h lo hi vs ts \<Longrightarrow>
         (\<forall>lo' hi'. lo' \<le> lo \<longrightarrow> hi \<le> hi' \<longrightarrow> holds_list h lo' hi' vs ts)"
proof (induction rule: holds_holds_list.inducts)
  case (holds_obj lo a hi h ps kvs)
  show ?case
  proof (intro allI impI)
    fix lo' hi' assume b: "lo' \<le> lo" "hi \<le> hi'"
    from holds_obj.IH b have "holds_list h lo' a (map snd ps) (map snd kvs)" by simp
    with holds_obj.hyps b show "holds h lo' hi' (VRef a) (JObj kvs)"
      by (intro holds_holds_list.holds_obj[of lo' a hi' h ps kvs]) auto
  qed
next
  case (holds_arr lo a hi h vs ts)
  show ?case
  proof (intro allI impI)
    fix lo' hi' assume b: "lo' \<le> lo" "hi \<le> hi'"
    from holds_arr.IH b have "holds_list h lo' a vs ts" by simp
    with holds_arr.hyps b show "holds h lo' hi' (VRef a) (JArr ts)"
      by (intro holds_holds_list.holds_arr[of lo' a hi' h vs ts]) auto
  qed
next
  case (holds_cons h lo mid v t hi vs ts)
  show ?case
  proof (intro allI impI)
    fix lo' hi' assume b: "lo' \<le> lo" "hi \<le> hi'"
    from holds_cons.IH b have "holds h lo' mid v t" "holds_list h mid hi' vs ts" by simp_all
    then show "holds_list h lo' hi' (v # vs) (t # ts)" by (rule holds_holds_list.holds_cons)
  qed
qed (auto intro: holds_holds_list.intros)

lemma holds_mono: "holds h lo hi v t \<Longrightarrow> lo' \<le> lo \<Longrightarrow> hi \<le> hi' \<Longrightarrow> holds h lo' hi' v t"
  using holds_mono_aux(1) by blast

lemma holds_list_mono:
  "holds_list h lo hi vs ts \<Longrightarrow> lo' \<le> lo \<Longrightarrow> hi \<le> hi' \<Longrightarrow> holds_list h lo' hi' vs ts"
  using holds_mono_aux(2) by blast

lemma holds_frame_aux:
  shows "holds h lo hi v t \<Longrightarrow> (\<forall>h'. same_within h h' lo hi \<longrightarrow> holds h' lo hi v t)"
    and "holds_list h lo hi vs ts \<Longrightarrow>
         (\<forall>h'. same_within h h' lo hi \<longrightarrow> holds_list h' lo hi vs ts)"
proof (induction rule: holds_holds_list.inducts)
  case (holds_obj lo a hi h ps kvs)
  show ?case
  proof (intro allI impI)
    fix h' assume s: "same_within h h' lo hi"
    with holds_obj.hyps have "same_within h h' lo a" by (auto simp: same_within_def)
    with holds_obj.IH have "holds_list h' lo a (map snd ps) (map snd kvs)" by simp
    moreover from s holds_obj.hyps have "h' ! a = CObj ps" "a < length h'"
      by (auto simp: same_within_def)
    ultimately show "holds h' lo hi (VRef a) (JObj kvs)"
      using holds_obj.hyps by (intro holds_holds_list.holds_obj[of lo a hi h' ps kvs]) auto
  qed
next
  case (holds_arr lo a hi h vs ts)
  show ?case
  proof (intro allI impI)
    fix h' assume s: "same_within h h' lo hi"
    with holds_arr.hyps have "same_within h h' lo a" by (auto simp: same_within_def)
    with holds_arr.IH have "holds_list h' lo a vs ts" by simp
    moreover from s holds_arr.hyps have "h' ! a = CArr vs" "a < length h'"
      by (auto simp: same_within_def)
    ultimately show "holds h' lo hi (VRef a) (JArr ts)"
      using holds_arr.hyps by (intro holds_holds_list.holds_arr[of lo a hi h' vs ts]) auto
  qed
next
  case (holds_cons h lo mid v t hi vs ts)
  show ?case
  proof (intro allI impI)
    fix h' assume s: "same_within h h' lo hi"
    from holds_le(1)[OF holds_cons.hyps(1)] holds_le(2)[OF holds_cons.hyps(2)]
    have "lo \<le> mid" "mid \<le> hi" .
    with s have "same_within h h' lo mid" "same_within h h' mid hi"
      by (auto simp: same_within_def)
    with holds_cons.IH have "holds h' lo mid v t" "holds_list h' mid hi vs ts" by simp_all
    then show "holds_list h' lo hi (v # vs) (t # ts)" by (rule holds_holds_list.holds_cons)
  qed
qed (auto intro: holds_holds_list.intros)

lemma holds_frame: "holds h lo hi v t \<Longrightarrow> same_within h h' lo hi \<Longrightarrow> holds h' lo hi v t"
  using holds_frame_aux(1) by blast

lemma holds_list_frame:
  "holds_list h lo hi vs ts \<Longrightarrow> same_within h h' lo hi \<Longrightarrow> holds_list h' lo hi vs ts"
  using holds_frame_aux(2) by blast

lemma same_within_append: "same_within h (h @ e) lo hi"
  by (simp add: same_within_def nth_append)

lemma alloc_holds:
  shows "alloc h t = (h', v) \<Longrightarrow>
           (\<exists>e. h' = h @ e) \<and> holds h' (length h) (length h') v t"
    and "alloc_props h kvs = (h', ps) \<Longrightarrow>
           (\<exists>e. h' = h @ e) \<and> map fst ps = map fst kvs \<and>
           holds_list h' (length h) (length h') (map snd ps) (map snd kvs)"
    and "alloc_items h ts = (h', vs) \<Longrightarrow>
           (\<exists>e. h' = h @ e) \<and> holds_list h' (length h) (length h') vs ts"
proof (induction h t and h kvs and h ts arbitrary: h' v and h' ps and h' vs
       rule: alloc_alloc_props_alloc_items.induct)
  case (6 h kvs)
  obtain h1 ps where a: "alloc_props h kvs = (h1, ps)" by (cases "alloc_props h kvs")
  with "6.prems" have r: "h' = h1 @ [CObj ps]" "v = VRef (length h1)" by simp_all
  from "6.IH"[OF a] obtain e where e: "h1 = h @ e" and k: "map fst ps = map fst kvs"
    and hl: "holds_list h1 (length h) (length h1) (map snd ps) (map snd kvs)" by blast
  from hl have "holds_list h' (length h) (length h1) (map snd ps) (map snd kvs)"
    unfolding r by (rule holds_list_frame) (rule same_within_append)
  then have "holds h' (length h) (length h') (VRef (length h1)) (JObj kvs)"
    using k e by (intro holds_obj[of _ _ _ _ ps]) (simp_all add: r)
  with e r show ?case by simp
next
  case (7 h ts)
  obtain h1 vs where a: "alloc_items h ts = (h1, vs)" by (cases "alloc_items h ts")
  with "7.prems" have r: "h' = h1 @ [CArr vs]" "v = VRef (length h1)" by simp_all
  from "7.IH"[OF a] obtain e where e: "h1 = h @ e"
    and hl: "holds_list h1 (length h) (length h1) vs ts" by blast
  from hl have "holds_list h' (length h) (length h1) vs ts"
    unfolding r by (rule holds_list_frame) (rule same_within_append)
  then have "holds h' (length h) (length h') (VRef (length h1)) (JArr ts)"
    using e by (intro holds_arr[of _ _ _ _ vs]) (simp_all add: r)
  with e r show ?case by simp
next
  case (9 h k t kvs)
  obtain h1 v where a: "alloc h t = (h1, v)" by (cases "alloc h t")
  obtain h2 ps' where b: "alloc_props h1 kvs = (h2, ps')" by (cases "alloc_props h1 kvs")
  from "9.prems" a b have r: "h' = h2" "ps = (k, v) # ps'" by simp_all
  from "9.IH"(1)[OF a] obtain e1 where e1: "h1 = h @ e1"
    and hv: "holds h1 (length h) (length h1) v t" by blast
  from "9.IH"(2)[OF a[symmetric] b] obtain e2 where e2: "h2 = h1 @ e2"
    and k: "map fst ps' = map fst kvs"
    and hl: "holds_list h2 (length h1) (length h2) (map snd ps') (map snd kvs)" by blast
  from hv have "holds h2 (length h) (length h1) v t"
    unfolding e2 by (rule holds_frame) (rule same_within_append)
  then have "holds_list h2 (length h) (length h2) (v # map snd ps') (t # map snd kvs)"
    using hl by (rule holds_cons)
  with e1 e2 k r show ?case by simp
next
  case (11 h t ts)
  obtain h1 v where a: "alloc h t = (h1, v)" by (cases "alloc h t")
  obtain h2 vs' where b: "alloc_items h1 ts = (h2, vs')" by (cases "alloc_items h1 ts")
  from "11.prems" a b have r: "h' = h2" "vs = v # vs'" by simp_all
  from "11.IH"(1)[OF a] obtain e1 where e1: "h1 = h @ e1"
    and hv: "holds h1 (length h) (length h1) v t" by blast
  from "11.IH"(2)[OF a[symmetric] b] obtain e2 where e2: "h2 = h1 @ e2"
    and hl: "holds_list h2 (length h1) (length h2) vs' ts" by blast
  from hv have "holds h2 (length h) (length h1) v t"
    unfolding e2 by (rule holds_frame) (rule same_within_append)
  then have "holds_list h2 (length h) (length h2) (v # vs') (t # ts)"
    using hl by (rule holds_cons)
  with e1 e2 r show ?case by simp
qed (auto intro: holds_holds_list.intros)

lemma list_max_le_iff: "list_max xs \<le> n \<longleftrightarrow> (\<forall>x \<in> set xs. x \<le> n)"
  by (induction xs) auto

lemma list_max_ge: "x \<in> set xs \<Longrightarrow> x \<le> list_max xs"
  using list_max_le_iff[of xs "list_max xs"] by simp

lemma those_map_Some: "those (map f xs) = Some ys \<longleftrightarrow> list_all2 (\<lambda>x y. f x = Some y) xs ys"
proof (induction xs arbitrary: ys)
  case Nil
  then show ?case by auto
next
  case (Cons x xs)
  show ?case
  proof (cases "f x")
    case None
    then show ?thesis by (auto simp: list_all2_Cons1)
  next
    case (Some y)
    then show ?thesis using Cons.IH by (cases "those (map f xs)") (auto simp: list_all2_Cons1)
  qed
qed

lemma those_pairs:
  "map fst ps = map fst kvs \<Longrightarrow> those (map f (map snd ps)) = Some (map snd kvs) \<Longrightarrow>
   those (map (\<lambda>(k, v). map_option (Pair k) (f v)) ps) = Some kvs"
proof (induction ps arbitrary: kvs)
  case Nil
  then show ?case by simp
next
  case (Cons p ps)
  then obtain q kvs' where kvs: "kvs = q # kvs'" by (cases kvs) auto
  obtain k v where p: "p = (k, v)" by (cases p)
  obtain k' t where q: "q = (k', t)" by (cases q)
  from Cons.prems kvs p q have k: "k' = k" "map fst ps = map fst kvs'" by simp_all
  from Cons.prems(2) kvs p q have fv: "f v = Some t" and r: "those (map f (map snd ps)) = Some (map snd kvs')"
    by (auto split: option.splits)
  from Cons.IH[OF k(2) r] fv p q k kvs show ?case by simp
qed

lemma holds_snapshot_aux:
  shows "holds h lo hi v t \<Longrightarrow> (\<forall>n. depth t \<le> n \<longrightarrow> snapshot n h v = Some t)"
    and "holds_list h lo hi vs ts \<Longrightarrow>
         (\<forall>n. (\<forall>t \<in> set ts. depth t \<le> n) \<longrightarrow> those (map (snapshot n h) vs) = Some ts)"
proof (induction rule: holds_holds_list.inducts)
  case (holds_obj lo a hi h ps kvs)
  show ?case
  proof (intro allI impI)
    fix n assume d: "depth (JObj kvs) \<le> n"
    then obtain m where n: "n = Suc m" by (cases n) auto
    with d have "\<forall>t \<in> set (map snd kvs). depth t \<le> m"
      by (auto simp: list_max_le_iff)
    with holds_obj.IH have "those (map (snapshot m h) (map snd ps)) = Some (map snd kvs)" by blast
    from those_pairs[OF holds_obj.hyps(5) this] holds_obj.hyps n
    show "snapshot n h (VRef a) = Some (JObj kvs)" by simp
  qed
next
  case (holds_arr lo a hi h vs ts)
  show ?case
  proof (intro allI impI)
    fix n assume d: "depth (JArr ts) \<le> n"
    then obtain m where n: "n = Suc m" by (cases n) auto
    with d have "\<forall>t \<in> set ts. depth t \<le> m"
      by (auto simp: list_max_le_iff)
    with holds_arr.IH have "those (map (snapshot m h) vs) = Some ts" by blast
    with holds_arr.hyps n show "snapshot n h (VRef a) = Some (JArr ts)" by simp
  qed
qed auto

lemma holds_snapshot: "holds h lo hi v t \<Longrightarrow> depth t \<le> n \<Longrightarrow> snapshot n h v = Some t"
  using holds_snapshot_aux(1) by blast

lemma alloc_snapshot: "alloc h t = (h', v) \<Longrightarrow> snapshot (depth t) h' v = Some t"
proof -
  assume "alloc h t = (h', v)"
  from alloc_holds(1)[OF this] have "holds h' (length h) (length h') v t" by blast
  then show ?thesis by (rule holds_snapshot) simp
qed

lemma snapshot_depth: "snapshot n h v = Some t \<Longrightarrow> depth t \<le> n"
proof (induction n arbitrary: v t)
  case 0
  then show ?case by (cases v) auto
next
  case (Suc n)
  show ?case
  proof (cases v)
    case (VRef a)
    with Suc.prems have a: "a < length h" by (auto split: if_splits)
    show ?thesis
    proof (cases "h ! a")
      case (CObj ps)
      with Suc.prems VRef a obtain kvs where t: "t = JObj kvs"
        and th: "those (map (\<lambda>(k, v). map_option (Pair k) (snapshot n h v)) ps) = Some kvs"
        by auto
      from th have "list_all2 (\<lambda>p q. (case p of (k, v) \<Rightarrow> map_option (Pair k) (snapshot n h v)) = Some q) ps kvs"
        by (simp add: those_map_Some)
      then have "\<forall>q \<in> set kvs. depth (snd q) \<le> n"
      proof (induction rule: list_all2_induct)
        case Nil
        then show ?case by simp
      next
        case (Cons p ps q kvs)
        obtain k v where p: "p = (k, v)" by (cases p)
        with Cons.hyps(1) obtain t' where "snapshot n h v = Some t'" "q = (k, t')" by auto
        with Suc.IH[of v t'] Cons.IH show ?case by simp
      qed
      then have "list_max (map (\<lambda>(k, v). depth v) kvs) \<le> n"
        by (auto simp: list_max_le_iff)
      with t show ?thesis by simp
    next
      case (CArr vs)
      with Suc.prems VRef a obtain ts where t: "t = JArr ts"
        and th: "those (map (snapshot n h) vs) = Some ts"
        by auto
      from th have "list_all2 (\<lambda>v t. snapshot n h v = Some t) vs ts"
        by (simp add: those_map_Some)
      then have "\<forall>t \<in> set ts. depth t \<le> n"
        by (induction rule: list_all2_induct) (auto dest: Suc.IH)
      then have "list_max (map depth ts) \<le> n"
        by (auto simp: list_max_le_iff)
      with t show ?thesis by simp
    qed
  qed (use Suc.prems in auto)
qed

lemma snapshot_append: "snapshot n h v = Some t \<Longrightarrow> snapshot n (h @ e) v = Some t"
proof (induction n arbitrary: v t)
  case 0
  then show ?case by (cases v) auto
next
  case (Suc n)
  show ?case
  proof (cases v)
    case (VRef a)
    with Suc.prems have a: "a < length h" by (auto split: if_splits)
    then have na: "(h @ e) ! a = h ! a" "a < length (h @ e)" by (simp_all add: nth_append)
    show ?thesis
    proof (cases "h ! a")
      case (CObj ps)
      with Suc.prems VRef a obtain kvs where t: "t = JObj kvs"
        and th: "those (map (\<lambda>(k, v). map_option (Pair k) (snapshot n h v)) ps) = Some kvs"
        by auto
      from th have "list_all2 (\<lambda>p q. (case p of (k, v) \<Rightarrow> map_option (Pair k) (snapshot n h v)) = Some q) ps kvs"
        by (simp add: those_map_Some)
      then have "list_all2 (\<lambda>p q. (case p of (k, v) \<Rightarrow> map_option (Pair k) (snapshot n (h @ e) v)) = Some q) ps kvs"
      proof (rule list_all2_mono)
        fix p q assume "(case p of (k, v) \<Rightarrow> map_option (Pair k) (snapshot n h v)) = Some q"
        then show "(case p of (k, v) \<Rightarrow> map_option (Pair k) (snapshot n (h @ e) v)) = Some q"
          by (cases p) (auto dest: Suc.IH)
      qed
      then have "those (map (\<lambda>(k, v). map_option (Pair k) (snapshot n (h @ e) v)) ps) = Some kvs"
        by (simp add: those_map_Some)
      with VRef CObj na t show ?thesis by simp
    next
      case (CArr vs)
      with Suc.prems VRef a obtain ts where t: "t = JArr ts"
        and th: "those (map (snapshot n h) vs) = Some ts"
        by auto
      from th have "list_all2 (\<lambda>v t. snapshot n h v = Some t) vs ts"
        by (simp add: those_map_Some)
      then have "list_all2 (\<lambda>v t. snapshot n (h @ e) v = Some t) vs ts"
        by (rule list_all2_mono) (rule Suc.IH)
      then have "those (map (snapshot n (h @ e)) vs) = Some ts"
        by (simp add: those_map_Some)
      with VRef CArr na t show ?thesis by simp
    qed
  qed (use Suc.prems in auto)
qed

lemma depth_json_clone: "depth (json_clone v) \<le> depth v"
proof (induction v rule: json_clone.induct)
  case (1 kvs)
  have "list_max (map (\<lambda>(k, v). depth v)
          (map (\<lambda>(k, v). (k, json_clone v)) (filter (\<lambda>(k, v). enumerable k \<and> v \<noteq> JUndefined) kvs)))
        \<le> list_max (map (\<lambda>(k, v). depth v) kvs)"
    unfolding list_max_le_iff
  proof
    fix x assume "x \<in> set (map (\<lambda>(k, v). depth v)
          (map (\<lambda>(k, v). (k, json_clone v)) (filter (\<lambda>(k, v). enumerable k \<and> v \<noteq> JUndefined) kvs)))"
    then obtain k v where kv: "(k, v) \<in> set (filter (\<lambda>(k, v). enumerable k \<and> v \<noteq> JUndefined) kvs)"
      and x: "x = depth (json_clone v)" by auto
    from "1.IH"[OF kv refl] x have "x \<le> depth v" by simp
    also from kv have "depth v \<le> list_max (map (\<lambda>(k, v). depth v) kvs)"
      by (intro list_max_ge) force
    finally show "x \<le> list_max (map (\<lambda>(k, v). depth v) kvs)" .
  qed
  then show ?case by simp
next
  case (2 vs)
  have "list_max (map depth (map (\<lambda>v. if v = JUndefined then JNull else json_clone v) vs))
        \<le> list_max (map depth vs)"
    unfolding list_max_le_iff
  proof
    fix x assume "x \<in> set (map depth (map (\<lambda>v. if v = JUndefined then JNull else json_clone v) vs))"
    then obtain v where v: "v \<in> set vs"
      and x: "x = depth (if v = JUndefined then JNull else json_clone v)" by auto
    from "2.IH"[OF v] x have "x \<le> depth v" by (cases "v = JUndefined") simp_all
    also from v have "depth v \<le> list_max (map depth vs)" by (intro list_max_ge) simp
    finally show "x \<le> list_max (map depth vs)" .
  qed
  then show ?case by simp
qed simp_all

lemma depth_strip_prefixed: "depth (strip_prefixed v) \<le> depth v"
proof (induction v rule: strip_prefixed.induct)
  case (1 kvs)
  have "list_max (map (\<lambda>(k, v). depth v)
          (map (\<lambda>(k, v). (k, strip_prefixed v)) (filter (\<lambda>(k, v). \<not> is_marker k) kvs)))
        \<le> list_max (map (\<lambda>(k, v). depth v) kvs)"
    unfolding list_max_le_iff
  proof
    fix x assume "x \<in> set (map (\<lambda>(k, v). depth v)
          (map (\<lambda>(k, v). (k, strip_prefixed v)) (filter (\<lambda>(k, v). \<not> is_marker k) kvs)))"
    then obtain k v where kv: "(k, v) \<in> set (filter (\<lambda>(k, v). \<not> is_marker k) kvs)"
      and x: "x = depth (strip_prefixed v)" by auto
    from "1.IH"[OF kv refl] x have "x \<le> depth v" by simp
    also from kv have "depth v \<le> list_max (map (\<lambda>(k, v). depth v) kvs)"
      by (intro list_max_ge) force
    finally show "x \<le> list_max (map (\<lambda>(k, v). depth v) kvs)" .
  qed
  then show ?case by simp
next
  case (2 vs)
  have "list_max (map depth (map strip_prefixed vs)) \<le> list_max (map depth vs)"
    unfolding list_max_le_iff
  proof
    fix x assume "x \<in> set (map depth (map strip_prefixed vs))"
    then obtain v where v: "v \<in> set vs" and x: "x = depth (strip_prefixed v)" by auto
    from "2.IH"[OF v] x have "x \<le> depth v" by simp
    also from v have "depth v \<le> list_max (map depth vs)" by (intro list_max_ge) simp
    finally show "x \<le> list_max (map depth vs)" .
  qed
  then show ?case by simp
qed simp_all

lemma cleanSchema_h_Suc:
  "cleanSchema_h (Suc n) (VRef a) h =
     (if a < length h then
        (let h1 = (case h ! a of
                     CObj ps \<Rightarrow> h[a := CObj (filter (\<lambda>(k, v). \<not> is_marker k) ps)]
                   | CArr vs \<Rightarrow> h);
             vals = (case h1 ! a of
                       CObj ps \<Rightarrow> map snd (filter (\<lambda>(k, v). enumerable k) ps)
                     | CArr vs \<Rightarrow> vs)
         in fold_opt (value_step n) vals h1)
      else None)"
proof -
  have e1: "(\<lambda>item h. case item of VRef c \<Rightarrow> cleanSchema_h n item h | _ \<Rightarrow> Some h) = item_step n"
    by (intro ext) (simp add: item_step_def)
  have e2: "(\<lambda>val h.
                 case val of
                   VRef b \<Rightarrow>
                     (if b < length h then
                        (case h ! b of
                           CArr items \<Rightarrow> fold_opt (item_step n) items h
                         | CObj ps \<Rightarrow> cleanSchema_h n val h)
                      else None)
                 | _ \<Rightarrow> Some h) = value_step n"
    by (intro ext) (simp add: value_step_def)
  show ?thesis by (simp only: cleanSchema_h.simps e1 e2)
qed

lemma same_outside_refl: "same_outside h h lo hi"
  by (simp add: same_outside_def)

lemma same_outside_widen:
  "same_outside h h' lo hi \<Longrightarrow> lo' \<le> lo \<Longrightarrow> hi \<le> hi' \<Longrightarrow> same_outside h h' lo' hi'"
  by (auto simp: same_outside_def)

lemma same_outside_trans:
  "same_outside h h1 lo hi \<Longrightarrow> same_outside h1 h2 lo hi \<Longrightarrow> same_outside h h2 lo hi"
  by (auto simp: same_outside_def)

lemma same_outside_within:
  "same_outside h h' lo hi \<Longrightarrow> hi' \<le> lo \<or> hi \<le> lo' \<Longrightarrow> same_within h h' lo' hi'"
  by (auto simp: same_outside_def same_within_def)

lemma fold_opt_holds:
  assumes step: "\<And>v t h lo hi. holds h lo hi v t \<Longrightarrow> P t \<Longrightarrow>
      \<exists>h'. f v h = Some h' \<and> same_outside h h' lo hi \<and> holds h' lo hi v (g t)"
  shows "holds_list h lo hi vs ts \<Longrightarrow> \<forall>t \<in> set ts. P t \<Longrightarrow>
      \<exists>h'. fold_opt f vs h = Some h' \<and> same_outside h h' lo hi \<and>
           holds_list h' lo hi vs (map g ts)"
proof (induction vs arbitrary: ts h lo)
  case Nil
  from Nil.prems(1) have "ts = []" "lo \<le> hi" by (auto elim: holds_list_NilE)
  then show ?case by (auto simp: same_outside_refl intro: holds_nil)
next
  case (Cons v vs)
  from Cons.prems(1) obtain t ts' mid where ts: "ts = t # ts'"
    and hv: "holds h lo mid v t" and hl: "holds_list h mid hi vs ts'"
    by (auto elim: holds_list_ConsE)
  from holds_le(1)[OF hv] holds_le(2)[OF hl] have le: "lo \<le> mid" "mid \<le> hi" .
  from Cons.prems(2) ts have pt: "P t" and pts: "\<forall>t \<in> set ts'. P t" by simp_all
  from step[OF hv pt] obtain h1 where s1: "f v h = Some h1"
    and o1: "same_outside h h1 lo mid" and hv1: "holds h1 lo mid v (g t)" by blast
  from o1 have "same_within h h1 mid hi" by (rule same_outside_within) simp
  with hl have "holds_list h1 mid hi vs ts'" by (rule holds_list_frame)
  from Cons.IH[OF this pts] obtain h2 where s2: "fold_opt f vs h1 = Some h2"
    and o2: "same_outside h1 h2 mid hi" and hl2: "holds_list h2 mid hi vs (map g ts')" by blast
  from o2 have "same_within h1 h2 lo mid" by (rule same_outside_within) simp
  with hv1 have "holds h2 lo mid v (g t)" by (rule holds_frame)
  then have "holds_list h2 lo hi (v # vs) (g t # map g ts')" using hl2 by (rule holds_cons)
  moreover from o1 o2 le have "same_outside h h2 lo hi"
    by (auto intro: same_outside_trans same_outside_widen)
  ultimately show ?case using s1 s2 ts by simp
qed

lemma holds_list_filter:
  "map fst ps = map fst kvs \<Longrightarrow> holds_list h lo hi (map snd ps) (map snd kvs) \<Longrightarrow>
   map fst (filter (\<lambda>(k, v). Q k) ps) = map fst (filter (\<lambda>(k, v). Q k) kvs) \<and>
   holds_list h lo hi (map snd (filter (\<lambda>(k, v). Q k) ps)) (map snd (filter (\<lambda>(k, v). Q k) kvs))"
proof (induction ps arbitrary: kvs lo)
  case Nil
  then show ?case by simp
next
  case (Cons p ps)
  then obtain q kvs' where kvs: "kvs = q # kvs'" by (cases kvs) auto
  obtain k v where p: "p = (k, v)" by (cases p)
  obtain k' t where q: "q = (k', t)" by (cases q)
  from Cons.prems(1) kvs p q have k: "k' = k" "map fst ps = map fst kvs'" by simp_all
  from Cons.prems(2) kvs p q obtain mid where hv: "holds h lo mid v t"
    and hl: "holds_list h mid hi (map snd ps) (map snd kvs')"
    by (auto elim: holds_list_ConsE)
  note ih = Cons.IH[OF k(2) hl]
  show ?case
  proof (cases "Q k")
    case True
    from hv ih[THEN conjunct2] have "holds_list h lo hi
        (v # map snd (filter (\<lambda>(k, v). Q k) ps)) (t # map snd (filter (\<lambda>(k, v). Q k) kvs'))"
      by (rule holds_cons)
    with True ih p q k kvs show ?thesis by simp
  next
    case False
    from holds_le(1)[OF hv] have "lo \<le> mid" .
    with ih[THEN conjunct2] have "holds_list h lo hi
        (map snd (filter (\<lambda>(k, v). Q k) ps)) (map snd (filter (\<lambda>(k, v). Q k) kvs'))"
      by (auto intro: holds_list_mono)
    with False ih p q k kvs show ?thesis by simp
  qed
qed

lemma holds_prim:
  "holds h lo hi v t \<Longrightarrow> depth t = 0 \<Longrightarrow> (\<forall>a. v \<noteq> VRef a) \<and> strip_prefixed t = t"
  by (cases rule: holds.cases) auto

lemma filter_enumerable_id:
  assumes "map fst ps = map fst kvs" and "\<forall>(k, t) \<in> set kvs. enumerable k"
  shows "filter (\<lambda>(k, v). enumerable k) ps = ps"
proof -
  have "\<forall>p \<in> set ps. enumerable (fst p)"
  proof
    fix p assume "p \<in> set ps"
    then have "fst p \<in> set (map fst ps)" by simp
    with assms(1) have "fst p \<in> set (map fst kvs)" by simp
    with assms(2) show "enumerable (fst p)" by auto
  qed
  then show ?thesis by (auto simp: filter_id_conv)
qed

lemma cleanSchema_h_holds:
  "holds h lo hi v t \<Longrightarrow> is_json t \<Longrightarrow> depth t \<le> n \<Longrightarrow>
   \<exists>h'. cleanSchema_h n v h = Some h' \<and> same_outside h h' lo hi \<and>
        holds h' lo hi v (strip_prefixed t)"
proof (induction n arbitrary: h lo hi v t)
  case 0
  from "0.prems"(3) have d: "depth t = 0" by simp
  from holds_prim[OF "0.prems"(1) d] have p: "\<forall>a. v \<noteq> VRef a" "strip_prefixed t = t" by simp_all
  from p(1) have "cleanSchema_h 0 v h = Some h" by (cases v) auto
  with p(2) "0.prems"(1) show ?case by (auto simp: same_outside_refl)
next
  case (Suc n)
  let ?P = "\<lambda>t. is_json t \<and> depth t \<le> n"
  have I: "\<exists>h'. item_step n v h = Some h' \<and> same_outside h h' lo hi \<and>
        holds h' lo hi v (strip_prefixed t)"
    if hv: "holds h lo hi v t" and pt: "?P t" for v t h lo hi
  proof (cases v)
    case (VRef c)
    with Suc.IH[OF hv] pt show ?thesis by (simp add: item_step_def)
  next
    case VUndefined
    with hv have "strip_prefixed t = t" by (cases rule: holds.cases) auto
    with hv VUndefined show ?thesis by (auto simp: item_step_def same_outside_refl)
  next
    case VNull
    with hv have "strip_prefixed t = t" by (cases rule: holds.cases) auto
    with hv VNull show ?thesis by (auto simp: item_step_def same_outside_refl)
  next
    case (VBool b)
    with hv have "strip_prefixed t = t" by (cases rule: holds.cases) auto
    with hv VBool show ?thesis by (auto simp: item_step_def same_outside_refl)
  next
    case (VNum i)
    with hv have "strip_prefixed t = t" by (cases rule: holds.cases) auto
    with hv VNum show ?thesis by (auto simp: item_step_def same_outside_refl)
  next
    case (VStr s)
    with hv have "strip_prefixed t = t" by (cases rule: holds.cases) auto
    with hv VStr show ?thesis by (auto simp: item_step_def same_outside_refl)
  qed
  have V: "\<exists>h'. value_step n v h = Some h' \<and> same_outside h h' lo hi \<and>
        holds h' lo hi v (strip_prefixed t)"
    if hv: "holds h lo hi v t" and pt: "?P t" for v t h lo hi
    using hv
  proof (cases rule: holds.cases)
    case (holds_obj a ps kvs)
    from Suc.IH[OF hv] pt holds_obj show ?thesis by (simp add: value_step_def)
  next
    case (holds_arr a vs ts)
    from pt holds_arr have "list_max (map depth ts) \<le> n" by simp
    then have "\<forall>t \<in> set ts. depth t \<le> n" by (simp add: list_max_le_iff)
    moreover from pt holds_arr have "\<forall>t \<in> set ts. is_json t" by (simp add: list_all_iff)
    ultimately have "\<forall>t \<in> set ts. ?P t" by blast
    from fold_opt_holds[where f="item_step n" and P="?P" and g=strip_prefixed, OF I holds_arr(7) this]
    obtain h' where f: "fold_opt (item_step n) vs h = Some h'"
      and o: "same_outside h h' lo a" and hl: "holds_list h' lo a vs (map strip_prefixed ts)"
      by blast
    from o holds_arr have c: "h' ! a = CArr vs" "a < length h'" by (auto simp: same_outside_def)
    from holds_arr c hl have "holds h' lo hi (VRef a) (JArr (map strip_prefixed ts))"
      by (intro holds_holds_list.holds_arr[of lo a hi h' vs]) auto
    moreover from o holds_arr have "same_outside h h' lo hi"
      by (auto intro: same_outside_widen)
    ultimately show ?thesis using f holds_arr by (simp add: value_step_def)
  qed (auto simp: value_step_def same_outside_refl intro: holds_holds_list.intros)
  from Suc.prems(1) show ?case
  proof (cases rule: holds.cases)
    case (holds_obj a ps kvs)
    let ?nm = "\<lambda>(k, v). \<not> is_marker k"
    let ?ps = "filter (\<lambda>(k, v). \<not> is_marker k) ps"
    let ?kvs = "filter (\<lambda>(k, v). \<not> is_marker k) kvs"
    let ?h1 = "h[a := CObj ?ps]"
    from holds_list_filter[OF holds_obj(7,8), of "\<lambda>k. \<not> is_marker k"]
    have keys: "map fst ?ps = map fst ?kvs"
      and hl: "holds_list h lo a (map snd ?ps) (map snd ?kvs)" by simp_all
    from Suc.prems(2) holds_obj(2) have en: "\<forall>(k, t) \<in> set ?kvs. enumerable k"
      by (auto simp: list_all_iff)
    from filter_enumerable_id[OF keys en] have vals: "filter (\<lambda>(k, v). enumerable k) ?ps = ?ps" .
    have "same_within h ?h1 lo a" by (simp add: same_within_def)
    with hl have hl1: "holds_list ?h1 lo a (map snd ?ps) (map snd ?kvs)" by (rule holds_list_frame)
    from Suc.prems(2,3) holds_obj(2) have "\<forall>t \<in> set (map snd ?kvs). ?P t"
      by (auto simp: list_max_le_iff list_all_iff)
    from fold_opt_holds[where f="value_step n" and P="?P" and g=strip_prefixed, OF V hl1 this]
    obtain h2 where f: "fold_opt (value_step n) (map snd ?ps) ?h1 = Some h2"
      and o: "same_outside ?h1 h2 lo a"
      and hl2: "holds_list h2 lo a (map snd ?ps) (map strip_prefixed (map snd ?kvs))"
      by blast
    from holds_obj have h1a: "?h1 ! a = CObj ?ps" by simp
    with o holds_obj have c: "h2 ! a = CObj ?ps" "a < length h2" by (auto simp: same_outside_def)
    have run: "cleanSchema_h (Suc n) (VRef a) h = Some h2"
      unfolding cleanSchema_h_Suc using holds_obj(5,6) h1a f vals by (simp add: Let_def)
    let ?out = "map (\<lambda>(k, v). (k, strip_prefixed v)) ?kvs"
    have k2: "map fst ?ps = map fst ?out" using keys by (simp add: case_prod_unfold)
    have v2: "map snd ?out = map strip_prefixed (map snd ?kvs)" by (simp add: case_prod_unfold)
    from holds_obj(3,4) c k2 hl2 have "holds h2 lo hi (VRef a) (JObj ?out)"
      by (intro holds_holds_list.holds_obj[of lo a hi h2 ?ps]) (simp_all only: v2)
    then have res: "holds h2 lo hi (VRef a) (strip_prefixed (JObj kvs))" by simp
    have "same_outside h h2 lo hi"
      using o holds_obj(3,4,5) by (auto simp: same_outside_def)
    with run res holds_obj(1,2) show ?thesis by simp
  next
    case (holds_arr a vs ts)
    from Suc.prems(2,3) holds_arr(2) have "\<forall>t \<in> set ts. ?P t"
      by (auto simp: list_max_le_iff list_all_iff)
    from fold_opt_holds[where f="value_step n" and P="?P" and g=strip_prefixed, OF V holds_arr(7) this]
    obtain h2 where f: "fold_opt (value_step n) vs h = Some h2"
      and o: "same_outside h h2 lo a"
      and hl2: "holds_list h2 lo a vs (map strip_prefixed ts)"
      by blast
    from o holds_arr have c: "h2 ! a = CArr vs" "a < length h2" by (auto simp: same_outside_def)
    have run: "cleanSchema_h (Suc n) (VRef a) h = Some h2"
      unfolding cleanSchema_h_Suc using holds_arr(5,6) f by (simp add: Let_def)
    from holds_arr(3,4) c hl2 have "holds h2 lo hi (VRef a) (JArr (map strip_prefixed ts))"
      by (intro holds_holds_list.holds_arr[of lo a hi h2 vs]) auto
    then have res: "holds h2 lo hi (VRef a) (strip_prefixed (JArr ts))" by simp
    have "same_outside h h2 lo hi"
      using o holds_arr(3,4) by (auto intro: same_outside_widen)
    with run res holds_arr(1,2) show ?thesis by simp
  qed (use Suc.prems(1) in \<open>auto simp: same_outside_refl\<close>)
qed

lemma holds_truthy: "holds h lo hi v t \<Longrightarrow> truthy_h v = truthy t"
  by (cases rule: holds.cases) (auto simp: truthy_h_def)

lemma holds_list_lookup:
  "map fst ps = map fst kvs \<Longrightarrow> holds_list h lo hi (map snd ps) (map snd kvs) \<Longrightarrow>
   truthy_h (case map_of ps k of None \<Rightarrow> VUndefined | Some v \<Rightarrow> v) =
   truthy (case map_of kvs k of None \<Rightarrow> JUndefined | Some t \<Rightarrow> t)"
proof (induction ps arbitrary: kvs lo)
  case Nil
  then show ?case by (simp add: truthy_h_def)
next
  case (Cons p ps)
  then obtain q kvs' where kvs: "kvs = q # kvs'" by (cases kvs) auto
  obtain k1 v where p: "p = (k1, v)" by (cases p)
  obtain k2 t where q: "q = (k2, t)" by (cases q)
  from Cons.prems(1) kvs p q have k: "k2 = k1" "map fst ps = map fst kvs'" by simp_all
  from Cons.prems(2) kvs p q obtain mid where hv: "holds h lo mid v t"
    and hl: "holds_list h mid hi (map snd ps) (map snd kvs')"
    by (auto elim: holds_list_ConsE)
  show ?case
  proof (cases "k1 = k")
    case True
    with holds_truthy[OF hv] p q k kvs show ?thesis by simp
  next
    case False
    with Cons.IH[OF k(2) hl] p q k kvs show ?thesis by simp
  qed
qed

lemma holds_list_update:
  "map fst ps = map fst kvs \<Longrightarrow> holds_list h lo hi (map snd ps) (map snd kvs) \<Longrightarrow>
   map fst (AList.update k (VStr s) ps) = map fst (AList.update k (JStr s) kvs) \<and>
   holds_list h lo hi (map snd (AList.update k (VStr s) ps)) (map snd (AList.update k (JStr s) kvs))"
proof (induction ps arbitrary: kvs lo)
  case Nil
  then have kvs: "kvs = []" by simp
  from Nil.prems(2) have "lo \<le> hi" by (rule holds_le(2))
  then have "holds h lo hi (VStr s) (JStr s)" by (rule holds_str)
  moreover have "holds_list h hi hi [] []" by (rule holds_nil) simp
  ultimately have "holds_list h lo hi [VStr s] [JStr s]" by (rule holds_cons)
  with kvs show ?case by simp
next
  case (Cons p ps)
  then obtain q kvs' where kvs: "kvs = q # kvs'" by (cases kvs) auto
  obtain k1 v where p: "p = (k1, v)" by (cases p)
  obtain k2 t where q: "q = (k2, t)" by (cases q)
  from Cons.prems(1) kvs p q have kk: "k2 = k1" "map fst ps = map fst kvs'" by simp_all
  from Cons.prems(2) kvs p q obtain mid where hv: "holds h lo mid v t"
    and hl: "holds_list h mid hi (map snd ps) (map snd kvs')"
    by (auto elim: holds_list_ConsE)
  show ?case
  proof (cases "k1 = k")
    case True
    from holds_le(1)[OF hv] have "holds h lo mid (VStr s) (JStr s)" by (rule holds_str)
    then have "holds_list h lo hi (VStr s # map snd ps) (JStr s # map snd kvs')"
      using hl by (rule holds_cons)
    with True p q kk kvs show ?thesis by simp
  next
    case False
    note ih = Cons.IH[OF kk(2) hl]
    from hv ih[THEN conjunct2]
    have "holds_list h lo hi (v # map snd (AList.update k (VStr s) ps))
            (t # map snd (AList.update k (JStr s) kvs'))"
      by (rule holds_cons)
    with False ih p q kk kvs show ?thesis by simp
  qed
qed

lemma set_prop_h_holds:
  assumes "holds h lo hi (VRef a) (JObj kvs)"
  shows "holds (set_prop_h h a k (VStr s)) lo hi (VRef a) (JObj (set_prop kvs k (JStr s))) \<and>
         same_outside h (set_prop_h h a k (VStr s)) lo hi"
proof -
  from assms obtain ps where o: "lo \<le> a" "a < hi" "a < length h" "h ! a = CObj ps"
      "map fst ps = map fst kvs" "holds_list h lo a (map snd ps) (map snd kvs)"
    by (auto elim: holds_objE)
  let ?h = "h[a := CObj (AList.update (Str k) (VStr s) ps)]"
  from o have sp: "set_prop_h h a k (VStr s) = ?h" by (simp add: set_prop_h_def)
  from holds_list_update[OF o(5,6), of "Str k" s]
  have keys: "map fst (AList.update (Str k) (VStr s) ps) = map fst (AList.update (Str k) (JStr s) kvs)"
    and hl: "holds_list h lo a (map snd (AList.update (Str k) (VStr s) ps))
              (map snd (AList.update (Str k) (JStr s) kvs))" by simp_all
  have "same_within h ?h lo a" by (simp add: same_within_def)
  with hl have hl': "holds_list ?h lo a (map snd (AList.update (Str k) (VStr s) ps))
              (map snd (AList.update (Str k) (JStr s) kvs))" by (rule holds_list_frame)
  from o have c: "?h ! a = CObj (AList.update (Str k) (VStr s) ps)" "a < length ?h" by simp_all
  from o(1,2) c keys hl' have "holds ?h lo hi (VRef a) (JObj (AList.update (Str k) (JStr s) kvs))"
    by (intro holds_holds_list.holds_obj[of lo a hi ?h "AList.update (Str k) (VStr s) ps"]) auto
  moreover from o(1,2) have "same_outside h ?h lo hi" by (auto simp: same_outside_def)
  ultimately show ?thesis by (simp add: sp set_prop_def)
qed

lemma get_prop_h_truthy:
  assumes "holds h lo hi (VRef a) (JObj kvs)"
  shows "truthy_h (get_prop_h h a k) = truthy (get_prop kvs k)"
proof -
  from assms obtain ps where o: "lo \<le> a" "a < hi" "a < length h" "h ! a = CObj ps"
      "map fst ps = map fst kvs" "holds_list h lo a (map snd ps) (map snd kvs)"
    by (auto elim: holds_objE)
  from holds_list_lookup[OF o(5,6), of "Str k"] o(4) show ?thesis
    by (simp add: get_prop_h_def get_prop_def)
qed

lemma add_meta_h_holds:
  fixes title description :: string
  assumes h0: "holds h0 lo hi (VRef a) (JObj kvs)"
  defines "h1 \<equiv> set_prop_h h0 a ''$schema'' (VStr draft07)"
  defines "h2 \<equiv> (if \<not> truthy_h (get_prop_h h1 a ''title'')
                  then set_prop_h h1 a ''title'' (VStr title) else h1)"
  defines "h3 \<equiv> (if \<not> truthy_h (get_prop_h h2 a ''description'')
                  then set_prop_h h2 a ''description'' (VStr description) else h2)"
  shows "holds h3 lo hi (VRef a) (JObj (add_meta kvs title description)) \<and> same_outside h0 h3 lo hi"
proof -
  let ?s1 = "set_prop kvs ''$schema'' (JStr draft07)"
  let ?s2 = "if \<not> truthy (get_prop ?s1 ''title'') then set_prop ?s1 ''title'' (JStr title) else ?s1"
  let ?s3 = "if \<not> truthy (get_prop ?s2 ''description'')
             then set_prop ?s2 ''description'' (JStr description) else ?s2"
  from set_prop_h_holds[OF h0] have 1: "holds h1 lo hi (VRef a) (JObj ?s1)" "same_outside h0 h1 lo hi"
    by (simp_all add: h1_def)
  have 2: "holds h2 lo hi (VRef a) (JObj ?s2) \<and> same_outside h1 h2 lo hi"
  proof (cases "truthy (get_prop ?s1 ''title'')")
    case True
    with get_prop_h_truthy[OF 1(1), of "''title''"] 1(1) show ?thesis
      by (simp add: h2_def same_outside_refl)
  next
    case False
    with get_prop_h_truthy[OF 1(1), of "''title''"] set_prop_h_holds[OF 1(1), of "''title''" title]
    show ?thesis by (simp add: h2_def)
  qed
  have 3: "holds h3 lo hi (VRef a) (JObj ?s3) \<and> same_outside h2 h3 lo hi"
  proof (cases "truthy (get_prop ?s2 ''description'')")
    case True
    with get_prop_h_truthy[OF 2[THEN conjunct1], of "''description''"] 2 show ?thesis
      by (simp add: h3_def same_outside_refl)
  next
    case False
    with get_prop_h_truthy[OF 2[THEN conjunct1], of "''description''"]
      set_prop_h_holds[OF 2[THEN conjunct1], of "''description''" description]
    show ?thesis by (simp add: h3_def)
  qed
  have "add_meta kvs title description = ?s3" by (simp add: add_meta_def Let_def)
  moreover from 1(2) 2 3 have "same_outside h0 h3 lo hi" by (blast intro: same_outside_trans)
  ultimately show ?thesis using 3 by simp
qed

lemma list_max_update:
  "list_max (map (\<lambda>(k, v). depth v) (AList.update k (JStr s) ps))
   \<le> list_max (map (\<lambda>(k, v). depth v) ps)"
  by (induction ps) (auto simp: max_def)

lemma depth_set_prop: "depth (JObj (set_prop ps k (JStr s))) \<le> depth (JObj ps)"
  by (simp add: set_prop_def list_max_update)

lemma depth_add_meta: "depth (JObj (add_meta ps t d)) \<le> depth (JObj ps)"
proof -
  let ?s1 = "set_prop ps ''$schema'' (JStr draft07)"
  let ?s2 = "if \<not> truthy (get_prop ?s1 ''title'') then set_prop ?s1 ''title'' (JStr t) else ?s1"
  let ?s3 = "if \<not> truthy (get_prop ?s2 ''description'')
             then set_prop ?s2 ''description'' (JStr d) else ?s2"
  have 1: "depth (JObj ?s1) \<le> depth (JObj ps)" by (rule depth_set_prop)
  have "depth (JObj ?s2) \<le> depth (JObj ?s1)"
    using depth_set_prop[of ?s1 "''title''" t] by (cases "truthy (get_prop ?s1 ''title'')") simp_all
  with 1 have 2: "depth (JObj ?s2) \<le> depth (JObj ps)" by simp
  have "depth (JObj ?s3) \<le> depth (JObj ?s2)"
    using depth_set_prop[of ?s2 "''description''" d]
    by (cases "truthy (get_prop ?s2 ''description'')") simp_all
  with 2 have "depth (JObj ?s3) \<le> depth (JObj ps)" by simp
  moreover have "add_meta ps t d = ?s3" by (simp add: add_meta_def Let_def)
  ultimately show ?thesis by simp
qed

lemma prefix_unchanged:
  assumes "length h \<le> length h'" and "\<forall>i < length h. h' ! i = h ! i"
  shows "take (length h) h' = h"
  using assms by (intro nth_equalityI) auto

lemma toJsonSchema_h_correct:
  assumes snap: "snapshot n h (VRef schema) = Some (JObj S)"
  shows "\<exists>h' out. toJsonSchema_h n h schema title description = Some (h', out) \<and>
           take (length h) h' = h \<and>
           snapshot n h' (VRef schema) = Some (JObj S) \<and>
           snapshot n h' out = Some (toJsonSchema S title description)"
proof -
  from snapshot_depth[OF snap] have d: "depth (JObj S) \<le> n" .
  obtain C where C: "json_clone (JObj S) = JObj C" by simp
  then have C': "the_props (json_clone (JObj S)) = C" by simp
  obtain h0 v0 where al: "alloc h (JObj C) = (h0, v0)" by (cases "alloc h (JObj C)")
  from alloc_holds(1)[OF al] obtain e where e: "h0 = h @ e"
    and hd0: "holds h0 (length h) (length h0) v0 (JObj C)" by blast
  from hd0 obtain a where v0: "v0 = VRef a" by (auto elim: holds_objE)
  note hd0 = hd0[unfolded v0]
  let ?h1 = "set_prop_h h0 a ''$schema'' (VStr draft07)"
  let ?h2 = "if \<not> truthy_h (get_prop_h ?h1 a ''title'')
             then set_prop_h ?h1 a ''title'' (VStr title) else ?h1"
  let ?h3 = "if \<not> truthy_h (get_prop_h ?h2 a ''description'')
             then set_prop_h ?h2 a ''description'' (VStr description) else ?h2"
  let ?pre = "JObj (add_meta C title description)"
  from add_meta_h_holds[OF hd0, of title description]
  have hd3: "holds ?h3 (length h) (length h0) (VRef a) ?pre"
    and o3: "same_outside h0 ?h3 (length h) (length h0)" by simp_all
  from is_json_prepared[of S title description] have js: "is_json ?pre" by (simp only: C')
  from depth_json_clone[of "JObj S"] have "depth (JObj C) \<le> depth (JObj S)" by (simp only: C)
  with depth_add_meta[of C title description] d have dp: "depth ?pre \<le> n" by simp
  from cleanSchema_h_holds[OF hd3 js dp] obtain h4 where
    run: "cleanSchema_h n (VRef a) ?h3 = Some h4"
    and o4: "same_outside ?h3 h4 (length h) (length h0)"
    and hd4: "holds h4 (length h) (length h0) (VRef a) (strip_prefixed ?pre)" by blast
  have out: "strip_prefixed ?pre = toJsonSchema S title description"
    by (simp only: toJsonSchema_strip C')
  from depth_strip_prefixed[of ?pre] dp have "depth (strip_prefixed ?pre) \<le> n" by simp
  from holds_snapshot[OF hd4 this] have s4: "snapshot n h4 (VRef a) = Some (toJsonSchema S title description)"
    by (simp only: out)
  from o3 o4 have o: "same_outside h0 h4 (length h) (length h0)" by (rule same_outside_trans)
  have len: "length h \<le> length h4" using o e by (simp add: same_outside_def)
  have "\<forall>i < length h. h4 ! i = h ! i"
  proof (intro allI impI)
    fix i assume i: "i < length h"
    with o e have "h4 ! i = h0 ! i" by (simp add: same_outside_def)
    with i e show "h4 ! i = h ! i" by (simp add: nth_append)
  qed
  with len have tk: "take (length h) h4 = h" by (rule prefix_unchanged)
  have "h4 = take (length h) h4 @ drop (length h) h4" by simp
  with tk have "h4 = h @ drop (length h) h4" by simp
  with snapshot_append[OF snap, of "drop (length h) h4"]
  have s0: "snapshot n h4 (VRef schema) = Some (JObj S)" by simp
  have "toJsonSchema_h n h schema title description = Some (h4, VRef a)"
    unfolding toJsonSchema_h_def
    by (simp only: snap option.case jsval.case C al prod.case v0 val.case Let_def run option.map)
  with tk s0 s4 show ?thesis by blast
qed

lemma generate_correct:
  assumes "snapshot n h (VRef schema) = Some (JObj S)"
  shows "generate n h schema title description =
         Some (schema_text (toJsonSchema S title description))"
proof -
  from toJsonSchema_h_correct[OF assms, of title description] obtain h' out where
    "toJsonSchema_h n h schema title description = Some (h', out)"
    "snapshot n h' out = Some (toJsonSchema S title description)" by blast
  then show ?thesis by (simp add: generate_def)
qed

text \<open>
  Claim C2. Let the store hold a definition, an object tree, at an address (every tree
  can be held so, by \<open>alloc_snapshot\<close>). The call returns; every cell that the store had before the call is the same after it, so the
  snapshot of the definition taken after the call equals the one taken before; and the
  value returned is built from cells allocated by the call: it holds the tree that
  \<^verbatim>\<open>toJsonSchema\<close> computes on the definition. The dialect, the title, the description
  and the deletions all go to the copy.
\<close>

theorem normalizer_leaves_input_unchanged:
  assumes "snapshot n h (VRef schema) = Some (JObj S)"
  shows "\<exists>h' out. toJsonSchema_h n h schema title description = Some (h', out) \<and>
           take (length h) h' = h \<and>
           snapshot n h' (VRef schema) = Some (JObj S) \<and>
           snapshot n h' out = Some (toJsonSchema S title description)"
  using assms by (rule toJsonSchema_h_correct)

theorem normalizer_leaves_input_unchanged_witness:
  "snapshot 2
     [CObj [(Str ''[Symbol.x]'', VNum 1), (Str ''k'', VNull)],
      CObj [(Sym ''s'', VNum 3), (Str ''a'', VRef 0), (Str ''title'', VStr [])]] (VRef 1) =
     Some (JObj [(Sym ''s'', JNum 3), (Str ''a'', JObj [(Str ''[Symbol.x]'', JNum 1), (Str ''k'', JNull)]),
                 (Str ''title'', JStr [])]) \<and>
   (\<exists>h' out.
      toJsonSchema_h 2
        [CObj [(Str ''[Symbol.x]'', VNum 1), (Str ''k'', VNull)],
         CObj [(Sym ''s'', VNum 3), (Str ''a'', VRef 0), (Str ''title'', VStr [])]] 1 ''T'' ''D'' =
        Some (h', out) \<and>
      take 2 h' =
        [CObj [(Str ''[Symbol.x]'', VNum 1), (Str ''k'', VNull)],
         CObj [(Sym ''s'', VNum 3), (Str ''a'', VRef 0), (Str ''title'', VStr [])]] \<and>
      snapshot 2 h' out =
        Some (toJsonSchema
          [(Sym ''s'', JNum 3), (Str ''a'', JObj [(Str ''[Symbol.x]'', JNum 1), (Str ''k'', JNull)]),
           (Str ''title'', JStr [])] ''T'' ''D''))"
proof -
  let ?h = "[CObj [(Str ''[Symbol.x]'', VNum 1), (Str ''k'', VNull)],
      CObj [(Sym ''s'', VNum 3), (Str ''a'', VRef 0), (Str ''title'', VStr [])]]"
  let ?S = "[(Sym ''s'', JNum 3), (Str ''a'', JObj [(Str ''[Symbol.x]'', JNum 1), (Str ''k'', JNull)]),
                 (Str ''title'', JStr [])]"
  have s: "snapshot 2 ?h (VRef 1) = Some (JObj ?S)" by (simp add: numeral_2_eq_2)
  from normalizer_leaves_input_unchanged[OF s, of "''T''" "''D''"] obtain h' out where
    r: "toJsonSchema_h 2 ?h 1 ''T'' ''D'' = Some (h', out)"
    and t: "take (length ?h) h' = ?h"
    and o: "snapshot 2 h' out = Some (toJsonSchema ?S ''T'' ''D'')" by blast
  have "length ?h = 2" by simp
  with t have "take 2 h' = ?h" by (simp only:)
  with s r o show ?thesis by blast
qed

section \<open>Determinism of the generation\<close>


lemma writeSchema_written:
  "writeSchema d f doc w = (w', None) \<Longrightarrow> files w' (schemasDir d @ [f]) = Some (schema_text doc)"
  by (auto dest: writeSchema_cases)

lemma main_files_determined:
  assumes "snd (main d w) = None" and "(p, t) \<in> set (outputs d)"
  shows "files (fst (main d w)) p = Some t"
proof -
  from main_success_conv[OF assms(1)] obtain w0 where
    m: "mkdirSync (schemasDir d) w = (w0, None)" and r: "ready d w0" by blast
  from main_success[OF m r] files_finished[OF assms(2), of w0] show ?thesis by simp
qed

text \<open>
  Claim C1. The text generated for a definition depends on nothing but the definition, the
  fallback title and the fallback description. Two stores that hold the same definition,
  wherever and however deep, give the same text, the serialization of what
  \<^verbatim>\<open>toJsonSchema\<close> computes; the writer puts that text at the destination whatever the file
  system held; two runs that end without error leave the same three files; and a second
  run after a first one ends without error and leaves the files as they are.
\<close>

theorem generation_deterministic:
  "(snapshot n ha (VRef ra) = Some (JObj S) \<and> snapshot m hb (VRef rb) = Some (JObj S) \<longrightarrow>
      generate n ha ra title description = Some (schema_text (toJsonSchema S title description)) \<and>
      generate m hb rb title description = generate n ha ra title description) \<and>
   (writeSchema d f (toJsonSchema S title description) wa = (wa', None) \<and>
    writeSchema d f (toJsonSchema S title description) wb = (wb', None) \<longrightarrow>
      files wa' (schemasDir d @ [f]) = Some (schema_text (toJsonSchema S title description)) \<and>
      files wb' (schemasDir d @ [f]) = files wa' (schemasDir d @ [f])) \<and>
   (snd (main d wa) = None \<and> snd (main d wb) = None \<longrightarrow>
      (\<forall>(p, t) \<in> set (outputs d).
         files (fst (main d wa)) p = Some t \<and> files (fst (main d wb)) p = Some t)) \<and>
   (snd (main d w) = None \<longrightarrow>
      snd (main d (fst (main d w))) = None \<and>
      files (fst (main d (fst (main d w)))) = files (fst (main d w)))"
proof (intro conjI impI)
  assume a: "snapshot n ha (VRef ra) = Some (JObj S) \<and> snapshot m hb (VRef rb) = Some (JObj S)"
  from a generate_correct[of n ha ra S title description]
  show g1: "generate n ha ra title description = Some (schema_text (toJsonSchema S title description))"
    by simp
  from a generate_correct[of m hb rb S title description] g1
  show "generate m hb rb title description = generate n ha ra title description" by simp
next
  assume a: "writeSchema d f (toJsonSchema S title description) wa = (wa', None) \<and>
    writeSchema d f (toJsonSchema S title description) wb = (wb', None)"
  from a writeSchema_written[of d f _ wa wa']
  show f1: "files wa' (schemasDir d @ [f]) = Some (schema_text (toJsonSchema S title description))"
    by blast
  from a writeSchema_written[of d f _ wb wb'] f1
  show "files wb' (schemasDir d @ [f]) = files wa' (schemasDir d @ [f])" by simp
next
  assume a: "snd (main d wa) = None \<and> snd (main d wb) = None"
  show "\<forall>(p, t) \<in> set (outputs d).
         files (fst (main d wa)) p = Some t \<and> files (fst (main d wb)) p = Some t"
    using a by (auto intro: main_files_determined)
next
  assume a: "snd (main d w) = None"
  from rerun[OF a] show "snd (main d (fst (main d w))) = None" by simp
  from rerun[OF a] show "files (fst (main d (fst (main d w)))) = files (fst (main d w))" by simp
qed

theorem generation_deterministic_witness:
  "snapshot 2 [CObj [(Str ''k'', VNull)], CObj [(Str ''a'', VRef 0)]] (VRef 1) =
     Some (JObj [(Str ''a'', JObj [(Str ''k'', JNull)])]) \<and>
   snapshot 3 [CArr [], CObj [(Str ''k'', VNull)], CObj [(Str ''a'', VRef 1)]] (VRef 2) =
     Some (JObj [(Str ''a'', JObj [(Str ''k'', JNull)])]) \<and>
   generate 3 [CArr [], CObj [(Str ''k'', VNull)], CObj [(Str ''a'', VRef 1)]] 2 ''T'' ''D'' =
     generate 2 [CObj [(Str ''k'', VNull)], CObj [(Str ''a'', VRef 0)]] 1 ''T'' ''D'' \<and>
   snd (main [''repo'', ''pi-agent'']
      \<lparr>dirs = {[]}, files = Map.empty, readonly = {}, console = []\<rparr>) = None \<and>
   files (fst (main [''repo'', ''pi-agent''] (fst (main [''repo'', ''pi-agent'']
      \<lparr>dirs = {[]}, files = Map.empty, readonly = {}, console = []\<rparr>)))) =
   files (fst (main [''repo'', ''pi-agent'']
      \<lparr>dirs = {[]}, files = Map.empty, readonly = {}, console = []\<rparr>))"
proof -
  let ?h1 = "[CObj [(Str ''k'', VNull)], CObj [(Str ''a'', VRef 0)]]"
  let ?h2 = "[CArr [], CObj [(Str ''k'', VNull)], CObj [(Str ''a'', VRef 1)]]"
  let ?S = "[(Str ''a'', JObj [(Str ''k'', JNull)])]"
  let ?d = "[''repo'', ''pi-agent'']"
  let ?w = "\<lparr>dirs = {[]}, files = Map.empty, readonly = {}, console = []\<rparr>"
  have s1: "snapshot 2 ?h1 (VRef 1) = Some (JObj ?S)" by (simp add: numeral_2_eq_2)
  have s2: "snapshot 3 ?h2 (VRef 2) = Some (JObj ?S)" by (simp add: numeral_3_eq_3)
  have sd: "schemasDir ?d = [''repo'', ''schemas'', ''pi-agent'']" by (simp add: schemasDir_def)
  have ok: "snd (main ?d ?w) = None"
    using main_creates_and_writes[of ?d ?w] by (simp add: outputs_def sd)
  note t = generation_deterministic[where n=2 and ha="?h1" and ra=1 and S="?S" and m=3 and hb="?h2" and rb=2
      and title="''T''" and description="''D''" and d="?d" and w="?w"]
  from t s1 s2 ok show ?thesis by blast
qed


end
